theory Spec2Isabelle
  imports Main
begin

section \<open>Text, errors and list access\<close>

text \<open>
  A Python \<^verbatim>\<open>str\<close> is a sequence of Unicode code points, and \<^verbatim>\<open>len\<close> counts code
  points. A code point is modelled as a natural number and a string as a list of them;
  \<open>str\<close> embeds an ASCII literal.
\<close>

type_synonym codepoint = nat
type_synonym pystr = "codepoint list"

definition str :: "string \<Rightarrow> pystr" where
  "str s = map of_char s"

text \<open>The exceptions that the modelled functions can raise.\<close>

datatype error = ValueError | IndexError | OverflowError

text \<open>\<^verbatim>\<open>xs[i]\<close> on a Python list: a negative index counts from the end, an index outside
  the list raises IndexError.\<close>

definition getitem :: "'a list \<Rightarrow> int \<Rightarrow> error + 'a" where
  "getitem xs i =
     (if 0 \<le> i \<and> i < int (length xs) then Inr (xs ! nat i)
      else if i < 0 \<and> - int (length xs) \<le> i then Inr (xs ! nat (int (length xs) + i))
      else Inl IndexError)"

text \<open>\<^verbatim>\<open>sep.join(parts)\<close>.\<close>

fun join :: "pystr \<Rightarrow> pystr list \<Rightarrow> pystr" where
  "join sep [] = []"
| "join sep [p] = p"
| "join sep (p # q # ps) = p @ sep @ join sep (q # ps)"

section \<open>Rule 5: the numeral speller\<close>

definition ONES :: "pystr list" where
  "ONES = map str [[], ''one'', ''two'', ''three'', ''four'', ''five'', ''six'', ''seven'',
     ''eight'', ''nine'', ''ten'', ''eleven'', ''twelve'', ''thirteen'', ''fourteen'',
     ''fifteen'', ''sixteen'', ''seventeen'', ''eighteen'', ''nineteen'']"

definition TENS :: "pystr list" where
  "TENS = map str [[], [], ''twenty'', ''thirty'', ''forty'', ''fifty'', ''sixty'',
     ''seventy'', ''eighty'', ''ninety'']"

definition SCALES :: "pystr list" where
  "SCALES = map str [[], ''thousand'', ''million'', ''billion'', ''trillion'']"

text \<open>
  \<^verbatim>\<open>_number_to_words\<close>. The \<^verbatim>\<open>while n > 0\<close> loop of the source is \<open>group_loop\<close>, which
  carries \<^verbatim>\<open>n\<close>, \<^verbatim>\<open>scale_idx\<close> and \<^verbatim>\<open>parts\<close>; it calls the speller on every non-zero
  three-digit chunk, as the source does.
\<close>

function number_to_words :: "int \<Rightarrow> error + pystr"
  and group_loop :: "int \<Rightarrow> int \<Rightarrow> pystr list \<Rightarrow> error + pystr"
where
  "number_to_words n =
     (if n = 0 then Inr (str ''zero'')
      else if n < 0 then
        (case number_to_words (- n) of
           Inl e \<Rightarrow> Inl e
         | Inr w \<Rightarrow> Inr (str ''negative '' @ w))
      else if n < 20 then getitem ONES n
      else if n < 100 then
        (let tens = n div 10; ones = n mod 10 in
         if ones \<noteq> 0 then
           (case getitem TENS tens of
              Inl e \<Rightarrow> Inl e
            | Inr t \<Rightarrow>
               (case getitem ONES ones of
                  Inl e \<Rightarrow> Inl e
                | Inr u \<Rightarrow> Inr (t @ str ''-'' @ u)))
         else getitem TENS tens)
      else if n < 1000 then
        (let hundreds = n div 100; remainder = n mod 100 in
         if remainder \<noteq> 0 then
           (case getitem ONES hundreds of
              Inl e \<Rightarrow> Inl e
            | Inr h \<Rightarrow>
               (case number_to_words remainder of
                  Inl e \<Rightarrow> Inl e
                | Inr r \<Rightarrow> Inr (h @ str '' hundred '' @ r)))
         else
           (case getitem ONES hundreds of
              Inl e \<Rightarrow> Inl e
            | Inr h \<Rightarrow> Inr (h @ str '' hundred'')))
      else group_loop n 0 [])"
| "group_loop n scale_idx parts =
     (if n > 0 then
        (let chunk = n mod 1000; n' = n div 1000 in
         if chunk \<noteq> 0 then
           (case number_to_words chunk of
              Inl e \<Rightarrow> Inl e
            | Inr chunk_words \<Rightarrow>
               if scale_idx > 0 then
                 (case getitem SCALES scale_idx of
                    Inl e \<Rightarrow> Inl e
                  | Inr sc \<Rightarrow>
                     group_loop n' (scale_idx + 1) (parts @ [chunk_words @ str '' '' @ sc]))
               else group_loop n' (scale_idx + 1) (parts @ [chunk_words]))
         else group_loop n' (scale_idx + 1) parts)
      else Inr (join (str '' '') (rev parts)))"
  by pat_completeness auto
termination
  by (relation "measure (\<lambda>x. case x of
        Inl n \<Rightarrow> (if 0 \<le> n \<and> n < 1000 then nat n
                  else 2000 + 2 * nat \<bar>n\<bar> + (if n < 0 then 1 else 0))
      | Inr (n, i, p) \<Rightarrow> 1000 + nat n)")
     auto

declare number_to_words.simps [simp del] group_loop.simps [simp del]

subsection \<open>Reference definition of the speller\<close>

text \<open>
  The reference definition follows the specification's words, not the code: below twenty
  a table lookup; below one hundred the tens word and, when the ones digit is non-zero,
  a hyphen and the ones word; below one thousand the hundreds digit, the word
  ``hundred'' and, when non-zero, the remainder; from one thousand on, the number is cut
  into three-digit groups, every non-zero group is spelled and followed by its scale
  word, and the groups are joined with single spaces, most significant first. The
  specification names four scale words, so the definition says nothing useful about a
  group beyond the fifth.
\<close>

definition spec_below_100 :: "nat \<Rightarrow> pystr" where
  "spec_below_100 n =
     (if n < 20 then ONES ! n
      else TENS ! (n div 10) @ (if n mod 10 \<noteq> 0 then str ''-'' @ ONES ! (n mod 10) else []))"

definition spec_below_1000 :: "nat \<Rightarrow> pystr" where
  "spec_below_1000 n =
     (if n < 100 then spec_below_100 n
      else ONES ! (n div 100) @ str '' hundred'' @
           (if n mod 100 \<noteq> 0 then str '' '' @ spec_below_100 (n mod 100) else []))"

fun spec_groups :: "nat \<Rightarrow> nat list" where
  "spec_groups n = (if n = 0 then [] else n mod 1000 # spec_groups (n div 1000))"

definition spec_group_words :: "nat \<times> nat \<Rightarrow> pystr" where
  "spec_group_words ig =
     spec_below_1000 (snd ig) @ (if fst ig > 0 then str '' '' @ SCALES ! fst ig else [])"

definition spec_parts :: "nat \<Rightarrow> nat \<Rightarrow> pystr list" where
  "spec_parts i n = map spec_group_words (filter (\<lambda>ig. snd ig \<noteq> 0) (enumerate i (spec_groups n)))"

definition spec_positive :: "nat \<Rightarrow> pystr" where
  "spec_positive n =
     (if n < 1000 then spec_below_1000 n
      else join (str '' '') (rev (spec_parts 0 n)))"

definition spec_number_to_words :: "int \<Rightarrow> pystr" where
  "spec_number_to_words n =
     (if n = 0 then str ''zero''
      else if n < 0 then str ''negative '' @ spec_positive (nat (- n))
      else spec_positive (nat n))"

declare spec_groups.simps [simp del]

section \<open>Rule 10: the chunker\<close>

text \<open>
  Whitespace as \<^verbatim>\<open>str.strip()\<close>, \<^verbatim>\<open>str.isspace()\<close> and the pattern \<^verbatim>\<open>\s\<close> of
  \<^verbatim>\<open>re\<close> on a \<^verbatim>\<open>str\<close> see it: the ASCII controls U+0009 to U+000D and U+001C to
  U+001F, the space, and the Unicode separators U+0085, U+00A0, U+1680, U+2000 to
  U+200A, U+2028, U+2029, U+202F, U+205F and U+3000.
\<close>

definition is_space :: "codepoint \<Rightarrow> bool" where
  "is_space c \<longleftrightarrow>
     (9 \<le> c \<and> c \<le> 13) \<or> (28 \<le> c \<and> c \<le> 32) \<or> c = 133 \<or> c = 160 \<or> c = 5760 \<or>
     (8192 \<le> c \<and> c \<le> 8202) \<or> c = 8232 \<or> c = 8233 \<or> c = 8239 \<or> c = 8287 \<or>
     c = 12288"

text \<open>\<^verbatim>\<open>s.strip()\<close> with no argument removes leading and trailing whitespace.\<close>

definition strip :: "pystr \<Rightarrow> pystr" where
  "strip s = rev (dropWhile is_space (rev (dropWhile is_space s)))"

text \<open>The characters of the class \<^verbatim>\<open>[.!?]\<close>.\<close>

definition is_sentence_end :: "codepoint \<Rightarrow> bool" where
  "is_sentence_end c \<longleftrightarrow> c = 46 \<or> c = 33 \<or> c = 63"

text \<open>
  \<^verbatim>\<open>re.split(r'(?<=[.!?])\s+', text)\<close>. The scan goes left to right; \<open>after_end\<close> says
  that the character just before the current position is one of \<^verbatim>\<open>.!?\<close> (false at the
  start of the text, where the look-behind fails), \<open>piece\<close> is the piece collected so
  far. A whitespace character after a sentence end starts a match, which takes the
  whole run of whitespace (\<^verbatim>\<open>\s+\<close> is greedy and nothing follows it); the piece is
  closed and the scan resumes after the run. Every other character joins the piece.
\<close>

function re_split_sentences :: "bool \<Rightarrow> pystr \<Rightarrow> pystr \<Rightarrow> pystr list" where
  "re_split_sentences after_end piece [] = [piece]"
| "re_split_sentences after_end piece (c # cs) =
     (if after_end \<and> is_space c
      then piece # re_split_sentences False [] (dropWhile is_space cs)
      else re_split_sentences (is_sentence_end c) (piece @ [c]) cs)"
  by pat_completeness auto
termination
  by (relation "measure (\<lambda>(a, p, t). length t)")
     (auto simp: length_dropWhile_le less_Suc_eq_le)

text \<open>
  The \<^verbatim>\<open>for sentence in sentences\<close> loop of \<^verbatim>\<open>chunk_text\<close>, with its three variables
  \<^verbatim>\<open>chunks\<close>, \<^verbatim>\<open>current_chunk\<close> and \<^verbatim>\<open>current_length\<close> as the state.
\<close>

fun chunk_loop ::
  "int \<Rightarrow> pystr list \<Rightarrow> pystr list \<times> pystr list \<times> int \<Rightarrow> pystr list \<times> pystr list \<times> int"
where
  "chunk_loop max_chars [] st = st"
| "chunk_loop max_chars (s # sentences) (chunks, current_chunk, current_length) =
     (let sentence = strip s in
      if sentence = [] then chunk_loop max_chars sentences (chunks, current_chunk, current_length)
      else
        let sentence_len = int (length sentence) in
        if sentence_len > max_chars then
          (if current_chunk \<noteq> []
           then chunk_loop max_chars sentences
                  ((chunks @ [join (str '' '') current_chunk]) @ [sentence], [], 0)
           else chunk_loop max_chars sentences
                  (chunks @ [sentence], current_chunk, current_length))
        else
          let space_needed = (if current_chunk \<noteq> [] then 1 else 0) in
          if current_length + space_needed + sentence_len > max_chars then
            chunk_loop max_chars sentences
              (if current_chunk \<noteq> [] then chunks @ [join (str '' '') current_chunk] else chunks,
               [sentence], sentence_len)
          else
            chunk_loop max_chars sentences
              (chunks, current_chunk @ [sentence], current_length + space_needed + sentence_len))"

definition chunk_text :: "pystr \<Rightarrow> int \<Rightarrow> pystr list" where
  "chunk_text text max_chars =
     (let sentences = re_split_sentences False [] text;
          (chunks, current_chunk, current_length) = chunk_loop max_chars sentences ([], [], 0)
      in if current_chunk \<noteq> [] then chunks @ [join (str '' '') current_chunk] else chunks)"

text \<open>
  The non-empty stripped sentences of a text, in their order: what the loop of
  \<^verbatim>\<open>chunk_text\<close> keeps of the pieces it is given.
\<close>

definition sentences_of :: "pystr \<Rightarrow> pystr list" where
  "sentences_of text = filter (\<lambda>s. s \<noteq> []) (map strip (re_split_sentences False [] text))"

text \<open>
  A group of sentences respects the limit when it is not empty and either its chunk, the
  sentences joined by single spaces, has at most \<open>max_chars\<close> characters, or it is one
  sentence that is longer than \<open>max_chars\<close> by itself.
\<close>

definition within_limit :: "int \<Rightarrow> pystr list \<Rightarrow> bool" where
  "within_limit max_chars g \<longleftrightarrow>
     g \<noteq> [] \<and>
     (int (length (join (str '' '') g)) \<le> max_chars \<or>
      (case g of [s] \<Rightarrow> max_chars < int (length s) | _ \<Rightarrow> False))"

section \<open>The converter class\<close>

text \<open>
  \<^verbatim>\<open>SpeechTextConverter\<close> holds the chunk size it was constructed with; \<^verbatim>\<open>__init__\<close>
  stores it as it comes. \<^verbatim>\<open>convert_and_chunk\<close> runs \<^verbatim>\<open>convert\<close> and hands the result
  and the stored size to \<^verbatim>\<open>chunk_text\<close>. The thirteen stages of \<^verbatim>\<open>convert\<close> are not
  part of this definition: \<open>convert\<close> is an argument, and an exception it raises
  passes through.
\<close>

record SpeechTextConverter =
  chunk_size :: int

definition init :: "int \<Rightarrow> SpeechTextConverter" where
  "init chunk_size_arg = \<lparr>chunk_size = chunk_size_arg\<rparr>"

definition convert_and_chunk ::
  "(pystr \<Rightarrow> error + pystr) \<Rightarrow> SpeechTextConverter \<Rightarrow> pystr \<Rightarrow> error + pystr list" where
  "convert_and_chunk convert self text =
     (case convert text of
        Inl e \<Rightarrow> Inl e
      | Inr t \<Rightarrow> Inr (chunk_text t (chunk_size self)))"

section \<open>Rule 3: dangerous punctuation\<close>

text \<open>\<^verbatim>\<open>text.replace(c, '')\<close> for a one-character \<^verbatim>\<open>c\<close>: every occurrence goes.\<close>

definition remove_char :: "codepoint \<Rightarrow> pystr \<Rightarrow> pystr" where
  "remove_char c s = filter (\<lambda>x. x \<noteq> c) s"

text \<open>
  \<^verbatim>\<open>re.sub(r'\[([^\]]*)\]', r'\1', text)\<close>. At an opening bracket (U+005B) the pattern
  matches when a closing bracket (U+005D) follows somewhere: the group takes everything
  up to the first closing bracket, the match is replaced by the group, and the scan
  resumes after the closing bracket. With no closing bracket to the right there is no
  match and the character stays, as every character other than an opening bracket does.
\<close>

function unwrap_brackets :: "pystr \<Rightarrow> pystr" where
  "unwrap_brackets [] = []"
| "unwrap_brackets (c # cs) =
     (if c = 91 \<and> 93 \<in> set cs
      then takeWhile (\<lambda>x. x \<noteq> 93) cs @ unwrap_brackets (tl (dropWhile (\<lambda>x. x \<noteq> 93) cs))
      else c # unwrap_brackets cs)"
  by pat_completeness auto
termination
  by (relation "measure length")
     (auto simp: length_dropWhile_le less_Suc_eq_le intro: le_trans [OF diff_le_self])

definition remove_dangerous_punctuation :: "pystr \<Rightarrow> pystr" where
  "remove_dangerous_punctuation text =
     unwrap_brackets (remove_char 62 (remove_char 60 (remove_char 125 (remove_char 123 text))))"

section \<open>Tables of the Unicode database\<close>

text \<open>
  The classes \<^verbatim>\<open>\d\<close> and \<^verbatim>\<open>\w\<close> of \<^verbatim>\<open>re\<close>, \<^verbatim>\<open>int()\<close>, \<^verbatim>\<open>str.isupper()\<close> and
  \<^verbatim>\<open>str.lower()\<close> consult the Unicode database of the interpreter, which is not part
  of the repository. The functions below take the table they consult as an argument:
  \<open>dec\<close> gives the decimal value of a code point of category Nd (\<^verbatim>\<open>\d\<close> matches exactly
  where it is defined, and \<^verbatim>\<open>int()\<close> reads that value), and \<open>word\<close> says whether a code
  point is alphanumeric or the underscore (\<^verbatim>\<open>\w\<close>). The tables \<open>ascii_decimal\<close> and
  \<open>ascii_word\<close> are their restrictions to ASCII, on which the functions can be run for
  ASCII texts.
\<close>

definition ascii_decimal :: "codepoint \<Rightarrow> nat option" where
  "ascii_decimal c = (if 48 \<le> c \<and> c \<le> 57 then Some (c - 48) else None)"

definition ascii_word :: "codepoint \<Rightarrow> bool" where
  "ascii_word c \<longleftrightarrow>
     (48 \<le> c \<and> c \<le> 57) \<or> (65 \<le> c \<and> c \<le> 90) \<or> (97 \<le> c \<and> c \<le> 122) \<or> c = 95"

text \<open>
  \<^verbatim>\<open>int(s)\<close> on a match of \<^verbatim>\<open>\d+\<close>: the digits are read in base ten. CPython refuses a
  string of more than 4300 digits with ValueError (the default of
  \<^verbatim>\<open>sys.set_int_max_str_digits\<close>). A string that is empty or holds a code point that is
  no decimal digit is no match of \<^verbatim>\<open>\d+\<close>; \<^verbatim>\<open>int\<close> raises ValueError on the ones without
  sign, space or underscore, and the others are outside this model.
\<close>

fun digits_value :: "(codepoint \<Rightarrow> nat option) \<Rightarrow> int \<Rightarrow> pystr \<Rightarrow> int option" where
  "digits_value dec acc [] = Some acc"
| "digits_value dec acc (c # cs) =
     (case dec c of None \<Rightarrow> None | Some v \<Rightarrow> digits_value dec (10 * acc + int v) cs)"

definition int_of_digits :: "(codepoint \<Rightarrow> nat option) \<Rightarrow> pystr \<Rightarrow> error + int" where
  "int_of_digits dec s =
     (if s = [] then Inl ValueError
      else case digits_value dec 0 s of
             None \<Rightarrow> Inl ValueError
           | Some n \<Rightarrow> if length s > 4300 then Inl ValueError else Inr n)"

section \<open>Literal patterns of \<^verbatim>\<open>re.sub\<close>\<close>

text \<open>
  Matching under \<^verbatim>\<open>re.IGNORECASE\<close> against an ASCII pattern character: the two cases of
  an ASCII letter match each other, and so do the four code points that CPython's
  \<^verbatim>\<open>re\<close> documents as case-equivalent to ASCII letters: U+0130 and U+0131 to \<^verbatim>\<open>i\<close>,
  U+017F to \<^verbatim>\<open>s\<close>, U+212A to \<^verbatim>\<open>k\<close>.
\<close>

definition fold_case :: "codepoint \<Rightarrow> codepoint" where
  "fold_case c =
     (if 65 \<le> c \<and> c \<le> 90 then c + 32
      else if c = 304 \<or> c = 305 then 105
      else if c = 383 then 115
      else if c = 8490 then 107
      else c)"

definition ci_eq :: "codepoint \<Rightarrow> codepoint \<Rightarrow> bool" where
  "ci_eq p x \<longleftrightarrow> fold_case p = fold_case x"

fun ci_prefix :: "pystr \<Rightarrow> pystr \<Rightarrow> bool" where
  "ci_prefix [] t = True"
| "ci_prefix (p # ps) [] = False"
| "ci_prefix (p # ps) (x # xs) = (ci_eq p x \<and> ci_prefix ps xs)"

text \<open>
  \<^verbatim>\<open>\b\<close> holds between two positions when exactly one of the neighbouring characters is
  a word character; outside the text there is none. \<open>next_word\<close> looks at the character
  to the right.
\<close>

definition next_word :: "(codepoint \<Rightarrow> bool) \<Rightarrow> pystr \<Rightarrow> bool" where
  "next_word word t = (case t of [] \<Rightarrow> False | x # xs \<Rightarrow> word x)"

text \<open>
  \<^verbatim>\<open>re.sub(rf'\b{lit}\b', repl, text, flags=re.IGNORECASE)\<close> for a non-empty literal
  \<open>lit\<close>, and, with \<open>end_b\<close> false, the same pattern without the closing \<^verbatim>\<open>\b\<close>. The
  scan goes through the original text from left to right; \<open>prev\<close> says whether the
  character before the current position is a word character. A literal has one way to
  match at a position, so the first position where boundary, literal and closing
  boundary agree is the match; the scan resumes behind it.
\<close>

function sub_literal ::
  "(codepoint \<Rightarrow> bool) \<Rightarrow> bool \<Rightarrow> pystr \<Rightarrow> pystr \<Rightarrow> bool \<Rightarrow> pystr \<Rightarrow> pystr" where
  "sub_literal word end_b lit repl prev [] = []"
| "sub_literal word end_b lit repl prev (c # cs) =
     (let n = length lit; matched = take n (c # cs); rest = drop n (c # cs) in
      if lit \<noteq> [] \<and> prev \<noteq> word c \<and> ci_prefix lit (c # cs) \<and>
         (end_b \<longrightarrow> word (last matched) \<noteq> next_word word rest)
      then repl @ sub_literal word end_b lit repl (word (last matched)) rest
      else c # sub_literal word end_b lit repl (word c) cs)"
  by pat_completeness auto
termination
  by (relation "measure (\<lambda>(w, e, l, r, p, t). length t)") auto

text \<open>\<^verbatim>\<open>text.replace(old, new)\<close> for a non-empty \<^verbatim>\<open>old\<close>.\<close>

function replace_all :: "pystr \<Rightarrow> pystr \<Rightarrow> pystr \<Rightarrow> pystr" where
  "replace_all old new [] = []"
| "replace_all old new (c # cs) =
     (if old \<noteq> [] \<and> take (length old) (c # cs) = old
      then new @ replace_all old new (drop (length old) (c # cs))
      else c # replace_all old new cs)"
  by pat_completeness auto
termination
  by (relation "measure (\<lambda>(old, new, t). length t)") auto

section \<open>Rule 5: the number pass\<close>

text \<open>The dictionary \<^verbatim>\<open>ORDINALS\<close>, in its insertion order, which the loop follows.\<close>

definition ORDINALS :: "(pystr \<times> pystr) list" where
  "ORDINALS = map (\<lambda>(k, v). (str k, str v))
     [(''1st'', ''first''), (''2nd'', ''second''), (''3rd'', ''third''), (''4th'', ''fourth''),
      (''5th'', ''fifth''), (''6th'', ''sixth''), (''7th'', ''seventh''), (''8th'', ''eighth''),
      (''9th'', ''ninth''), (''10th'', ''tenth''), (''11th'', ''eleventh''), (''12th'', ''twelfth''),
      (''13th'', ''thirteenth''), (''14th'', ''fourteenth''), (''15th'', ''fifteenth''),
      (''16th'', ''sixteenth''), (''17th'', ''seventeenth''), (''18th'', ''eighteenth''),
      (''19th'', ''nineteenth''), (''20th'', ''twentieth''), (''21st'', ''twenty-first''),
      (''22nd'', ''twenty-second''), (''23rd'', ''twenty-third''), (''24th'', ''twenty-fourth''),
      (''25th'', ''twenty-fifth''), (''26th'', ''twenty-sixth''), (''27th'', ''twenty-seventh''),
      (''28th'', ''twenty-eighth''), (''29th'', ''twenty-ninth''), (''30th'', ''thirtieth''),
      (''31st'', ''thirty-first'')]"

text \<open>
  A \<^verbatim>\<open>try\<close> block with \<^verbatim>\<open>except ValueError\<close>: a ValueError raised in the block gives
  the handler's value, every other exception goes on to the caller.
\<close>

definition except_ValueError :: "error + 'a \<Rightarrow> 'a \<Rightarrow> error + 'a" where
  "except_ValueError r handler =
     (case r of Inl e \<Rightarrow> (if e = ValueError then Inr handler else Inl e) | Inr v \<Rightarrow> Inr v)"

text \<open>
  \<^verbatim>\<open>replace_number\<close>, the callback of the number pass; \<open>num_str\<close> is \<^verbatim>\<open>match.group(0)\<close>.
\<close>

definition replace_number :: "(codepoint \<Rightarrow> nat option) \<Rightarrow> pystr \<Rightarrow> error + pystr" where
  "replace_number dec num_str =
     except_ValueError
       (case int_of_digits dec num_str of
          Inl e \<Rightarrow> Inl e
        | Inr num \<Rightarrow>
           if 1900 \<le> num \<and> num \<le> 2099 \<and> length num_str = 4 then
             (let first_half = num div 100; second_half = num mod 100 in
              if second_half = 0 then
                (case number_to_words first_half of
                   Inl e \<Rightarrow> Inl e
                 | Inr a \<Rightarrow> Inr (a @ str '' hundred''))
              else if second_half < 10 then
                (case number_to_words first_half of
                   Inl e \<Rightarrow> Inl e
                 | Inr a \<Rightarrow>
                    (case number_to_words second_half of
                       Inl e \<Rightarrow> Inl e
                     | Inr b \<Rightarrow> Inr (a @ str '' oh '' @ b)))
              else
                (case number_to_words first_half of
                   Inl e \<Rightarrow> Inl e
                 | Inr a \<Rightarrow>
                    (case number_to_words second_half of
                       Inl e \<Rightarrow> Inl e
                     | Inr b \<Rightarrow> Inr (a @ str '' '' @ b))))
           else number_to_words num)
       num_str"

text \<open>
  \<^verbatim>\<open>re.sub(r'\b(\d+)\b', replace_number, text)\<close>. A decimal digit is a word character, so
  a match is a whole run of digits with no word character on either side: \<^verbatim>\<open>\d+\<close> takes
  the run, and a shorter attempt would end or begin between two digits, where \<^verbatim>\<open>\b\<close>
  fails. A run with a word character next to it is copied. The callback runs on the
  matches from left to right, and its exception ends the pass.
\<close>

definition is_digit :: "(codepoint \<Rightarrow> nat option) \<Rightarrow> codepoint \<Rightarrow> bool" where
  "is_digit dec c \<longleftrightarrow> dec c \<noteq> None"

definition is_word :: "(codepoint \<Rightarrow> nat option) \<Rightarrow> (codepoint \<Rightarrow> bool) \<Rightarrow> codepoint \<Rightarrow> bool" where
  "is_word dec word c \<longleftrightarrow> word c \<or> is_digit dec c"

function sub_numbers ::
  "(codepoint \<Rightarrow> nat option) \<Rightarrow> (codepoint \<Rightarrow> bool) \<Rightarrow> bool \<Rightarrow> pystr \<Rightarrow> error + pystr" where
  "sub_numbers dec word prev [] = Inr []"
| "sub_numbers dec word prev (c # cs) =
     (if is_digit dec c then
        (let run = c # takeWhile (is_digit dec) cs; rest = dropWhile (is_digit dec) cs in
         if \<not> prev \<and> \<not> next_word (is_word dec word) rest then
           (case replace_number dec run of
              Inl e \<Rightarrow> Inl e
            | Inr r \<Rightarrow>
               (case sub_numbers dec word True rest of
                  Inl e \<Rightarrow> Inl e
                | Inr out \<Rightarrow> Inr (r @ out)))
         else
           (case sub_numbers dec word True rest of
              Inl e \<Rightarrow> Inl e
            | Inr out \<Rightarrow> Inr (run @ out)))
      else
        (case sub_numbers dec word (is_word dec word c) cs of
           Inl e \<Rightarrow> Inl e
         | Inr out \<Rightarrow> Inr (c # out)))"
  by pat_completeness auto
termination
  by (relation "measure (\<lambda>(d, w, p, t). length t)")
     (auto simp: length_dropWhile_le less_Suc_eq_le)

text \<open>\<^verbatim>\<open>normalize_numbers\<close>: the ordinals, one \<^verbatim>\<open>re.sub\<close> each, then the number pass.\<close>

definition normalize_numbers ::
  "(codepoint \<Rightarrow> nat option) \<Rightarrow> (codepoint \<Rightarrow> bool) \<Rightarrow> pystr \<Rightarrow> error + pystr" where
  "normalize_numbers dec word text =
     sub_numbers dec word False
       (foldl (\<lambda>t (ordinal, w). sub_literal (is_word dec word) True ordinal w False t) text ORDINALS)"

section \<open>Rule 6: the year of a date\<close>

text \<open>
  \<^verbatim>\<open>format_year\<close> of \<^verbatim>\<open>normalize_dates\<close>; \<open>year_str\<close> is the group \<^verbatim>\<open>(\d{4})\<close> of one of
  the two date patterns.
\<close>

definition format_year :: "(codepoint \<Rightarrow> nat option) \<Rightarrow> pystr \<Rightarrow> error + pystr" where
  "format_year dec year_str =
     (case int_of_digits dec year_str of
        Inl e \<Rightarrow> Inl e
      | Inr year \<Rightarrow>
         if 1900 \<le> year \<and> year \<le> 2099 then
           (let first_half = year div 100; second_half = year mod 100 in
            if second_half = 0 then
              (case number_to_words first_half of
                 Inl e \<Rightarrow> Inl e
               | Inr a \<Rightarrow> Inr (a @ str '' hundred''))
            else if second_half < 10 then
              (case number_to_words first_half of
                 Inl e \<Rightarrow> Inl e
               | Inr a \<Rightarrow>
                  (case number_to_words second_half of
                     Inl e \<Rightarrow> Inl e
                   | Inr b \<Rightarrow> Inr (a @ str '' oh '' @ b)))
            else
              (case number_to_words first_half of
                 Inl e \<Rightarrow> Inl e
               | Inr a \<Rightarrow>
                  (case number_to_words second_half of
                     Inl e \<Rightarrow> Inl e
                   | Inr b \<Rightarrow> Inr (a @ str '' '' @ b))))
         else number_to_words year)"

section \<open>Rule 1: HTML\<close>

text \<open>
  \<^verbatim>\<open>re.sub(r'<[^>]+>', '', text)\<close>: at a \<^verbatim>\<open><\<close> (U+003C) the pattern matches when at
  least one character other than \<^verbatim>\<open>>\<close> (U+003E) follows and a \<^verbatim>\<open>>\<close> closes the run.
\<close>

function strip_tags :: "pystr \<Rightarrow> pystr" where
  "strip_tags [] = []"
| "strip_tags (c # cs) =
     (let body = takeWhile (\<lambda>x. x \<noteq> 62) cs; rest = dropWhile (\<lambda>x. x \<noteq> 62) cs in
      if c = 60 \<and> body \<noteq> [] \<and> rest \<noteq> [] then strip_tags (tl rest)
      else c # strip_tags cs)"
  by pat_completeness auto
termination
  by (relation "measure length")
     (auto simp: length_dropWhile_le less_Suc_eq_le intro: le_trans [OF diff_le_self])

text \<open>The dictionary \<^verbatim>\<open>html_entities\<close>, in its insertion order.\<close>

definition html_entities :: "(pystr \<times> pystr) list" where
  "html_entities =
     [(str ''&amp;'', str ''&''), (str ''&lt;'', str ''<''), (str ''&gt;'', str ''>''),
      (str ''&quot;'', [34]), (str ''&apos;'', [39]), (str ''&nbsp;'', str '' ''),
      (str ''&#39;'', [39]), (str ''&mdash;'', [8212]), (str ''&ndash;'', [8211]),
      (str ''&hellip;'', [8230])]"

text \<open>
  \<^verbatim>\<open>chr(i)\<close> for \<open>i \<ge> 0\<close>: a code point up to U+10FFFF; beyond it CPython raises
  ValueError, and OverflowError once the number does not fit a C int.
\<close>

definition py_chr :: "int \<Rightarrow> error + codepoint" where
  "py_chr i =
     (if 0 \<le> i \<and> i \<le> 1114111 then Inr (nat i)
      else if i \<le> 2147483647 then Inl ValueError
      else Inl OverflowError)"

text \<open>
  \<^verbatim>\<open>re.sub(r'&#(\d+);', lambda m: chr(int(m.group(1))), text)\<close>: after \<^verbatim>\<open>&#\<close> the group
  takes the whole run of digits, which must not be empty and must be followed by a
  semicolon (U+003B).
\<close>

function sub_numeric_entities :: "(codepoint \<Rightarrow> nat option) \<Rightarrow> pystr \<Rightarrow> error + pystr" where
  "sub_numeric_entities dec [] = Inr []"
| "sub_numeric_entities dec (c # cs) =
     (let run = takeWhile (is_digit dec) (drop 1 cs); rest = dropWhile (is_digit dec) (drop 1 cs) in
      if c = 38 \<and> take 1 cs = [35] \<and> run \<noteq> [] \<and> take 1 rest = [59] then
        (case int_of_digits dec run of
           Inl e \<Rightarrow> Inl e
         | Inr i \<Rightarrow>
            (case py_chr i of
               Inl e \<Rightarrow> Inl e
             | Inr ch \<Rightarrow>
                (case sub_numeric_entities dec (drop 1 rest) of
                   Inl e \<Rightarrow> Inl e
                 | Inr out \<Rightarrow> Inr (ch # out))))
      else
        (case sub_numeric_entities dec cs of
           Inl e \<Rightarrow> Inl e
         | Inr out \<Rightarrow> Inr (c # out)))"
  by pat_completeness auto
termination
  by (relation "measure (\<lambda>(d, t). length t)")
     (auto simp: less_Suc_eq_le
        intro!: le_trans [OF diff_le_self le_trans [OF length_dropWhile_le]])

definition strip_html :: "(codepoint \<Rightarrow> nat option) \<Rightarrow> pystr \<Rightarrow> error + pystr" where
  "strip_html dec text =
     sub_numeric_entities dec
       (foldl (\<lambda>t (entity, char). replace_all entity char t) (strip_tags text) html_entities)"

text \<open>
  The dictionary \<^verbatim>\<open>MONTHS\<close> and the two date callbacks. The groups of a match are the
  arguments: month, day and year for \<^verbatim>\<open>MM/DD/YYYY\<close>; year, month and day for
  \<^verbatim>\<open>YYYY-MM-DD\<close>. \<^verbatim>\<open>MONTHS.get(month, month)\<close> falls back to the group itself.
\<close>

definition MONTHS :: "(pystr \<times> pystr) list" where
  "MONTHS = map (\<lambda>(k, v). (str k, str v))
     [(''01'', ''January''), (''1'', ''January''), (''02'', ''February''), (''2'', ''February''),
      (''03'', ''March''), (''3'', ''March''), (''04'', ''April''), (''4'', ''April''),
      (''05'', ''May''), (''5'', ''May''), (''06'', ''June''), (''6'', ''June''),
      (''07'', ''July''), (''7'', ''July''), (''08'', ''August''), (''8'', ''August''),
      (''09'', ''September''), (''9'', ''September''), (''10'', ''October''),
      (''11'', ''November''), (''12'', ''December'')]"

definition format_day :: "(codepoint \<Rightarrow> nat option) \<Rightarrow> pystr \<Rightarrow> error + pystr" where
  "format_day dec day_str =
     (case int_of_digits dec day_str of Inl e \<Rightarrow> Inl e | Inr day \<Rightarrow> number_to_words day)"

definition replace_us_date ::
  "(codepoint \<Rightarrow> nat option) \<Rightarrow> pystr \<times> pystr \<times> pystr \<Rightarrow> error + pystr" where
  "replace_us_date dec groups =
     (case groups of (month, day, year) \<Rightarrow>
        let month_name = (case map_of MONTHS month of None \<Rightarrow> month | Some name \<Rightarrow> name) in
        case format_day dec day of
          Inl e \<Rightarrow> Inl e
        | Inr d \<Rightarrow>
           (case format_year dec year of
              Inl e \<Rightarrow> Inl e
            | Inr y \<Rightarrow> Inr (month_name @ str '' '' @ d @ str '', '' @ y)))"

definition replace_iso_date ::
  "(codepoint \<Rightarrow> nat option) \<Rightarrow> pystr \<times> pystr \<times> pystr \<Rightarrow> error + pystr" where
  "replace_iso_date dec groups =
     (case groups of (year, month, day) \<Rightarrow>
        let month_name = (case map_of MONTHS month of None \<Rightarrow> month | Some name \<Rightarrow> name) in
        case format_day dec day of
          Inl e \<Rightarrow> Inl e
        | Inr d \<Rightarrow>
           (case format_year dec year of
              Inl e \<Rightarrow> Inl e
            | Inr y \<Rightarrow> Inr (month_name @ str '' '' @ d @ str '', '' @ y)))"


section \<open>Rule 9: a list block as prose\<close>

text \<open>
  \<^verbatim>\<open>_list_to_prose\<close>. \<open>isupper\<close> is \<^verbatim>\<open>str.isupper()\<close> on a string of one character and
  \<open>lower\<close> is \<^verbatim>\<open>str.lower()\<close>, both read from the Unicode database; \<open>ascii_isupper\<close> and
  \<open>ascii_lower\<close> are their restrictions to ASCII text. \<^verbatim>\<open>item[0]\<close> raises IndexError on
  an empty item; \<^verbatim>\<open>item[1:2]\<close> is the second character or the empty string, which is
  not upper case.
\<close>

definition ascii_isupper :: "codepoint \<Rightarrow> bool" where
  "ascii_isupper c \<longleftrightarrow> 65 \<le> c \<and> c \<le> 90"

definition ascii_lower :: "pystr \<Rightarrow> pystr" where
  "ascii_lower s = map (\<lambda>c. if 65 \<le> c \<and> c \<le> 90 then c + 32 else c) s"

definition ordinals :: "pystr list" where
  "ordinals = map str [''Firstly'', ''Secondly'', ''Thirdly'', ''Fourthly'', ''Fifthly'',
     ''Sixthly'', ''Seventhly'', ''Eighthly'', ''Ninthly'', ''Tenthly'']"

definition second_isupper :: "(codepoint \<Rightarrow> bool) \<Rightarrow> pystr \<Rightarrow> bool" where
  "second_isupper isupper item = (case take 1 (drop 1 item) of [c] \<Rightarrow> isupper c | _ \<Rightarrow> False)"

fun prose_loop ::
  "(codepoint \<Rightarrow> bool) \<Rightarrow> (pystr \<Rightarrow> pystr) \<Rightarrow> nat \<Rightarrow> pystr list \<Rightarrow> pystr list \<Rightarrow> error + pystr list"
where
  "prose_loop isupper lower i [] prose_parts = Inr prose_parts"
| "prose_loop isupper lower i (item # items) prose_parts =
     (if item = [] then Inl IndexError
      else
        let shown = (if isupper (hd item) \<and> \<not> second_isupper isupper item
                     then lower item else item) in
        if i < length ordinals
        then prose_loop isupper lower (i + 1) items
               (prose_parts @ [(ordinals ! i) @ str '', '' @ shown])
        else prose_loop isupper lower (i + 1) items
               (prose_parts @ [str ''Additionally, '' @ shown]))"

definition list_to_prose ::
  "(codepoint \<Rightarrow> bool) \<Rightarrow> (pystr \<Rightarrow> pystr) \<Rightarrow> pystr list \<Rightarrow> error + pystr" where
  "list_to_prose isupper lower items =
     (if length items = 1 then getitem items 0
      else case prose_loop isupper lower 0 items [] of
             Inl e \<Rightarrow> Inl e
           | Inr prose_parts \<Rightarrow> Inr (join (str '' '') prose_parts))"

section \<open>Rule 2: whitespace\<close>

text \<open>
  The class \<^verbatim>\<open>[^\S\n]\<close>: whitespace other than the newline (U+000A).
\<close>

definition is_hspace :: "codepoint \<Rightarrow> bool" where
  "is_hspace c \<longleftrightarrow> is_space c \<and> c \<noteq> 10"

text \<open>
  \<^verbatim>\<open>re.sub(r'[^\S\n]+', ' ', text)\<close>: every run of such characters becomes one space.
\<close>

function collapse_spaces :: "pystr \<Rightarrow> pystr" where
  "collapse_spaces [] = []"
| "collapse_spaces (c # cs) =
     (if is_hspace c then 32 # collapse_spaces (dropWhile is_hspace cs)
      else c # collapse_spaces cs)"
  by pat_completeness auto
termination
  by (relation "measure length") (auto simp: length_dropWhile_le less_Suc_eq_le)

text \<open>\<^verbatim>\<open>text.split('\n')\<close>: the pieces between the newlines, at least one.\<close>

fun split_lines :: "pystr \<Rightarrow> pystr list" where
  "split_lines [] = [[]]"
| "split_lines (c # cs) =
     (if c = 10 then [] # split_lines cs
      else (case split_lines cs of [] \<Rightarrow> [[c]] | l # ls \<Rightarrow> (c # l) # ls))"

text \<open>
  \<^verbatim>\<open>re.sub(r'\n{3,}', '\n\n', text)\<close>: a run of three or more newlines, taken whole,
  becomes two. A match can only begin at the first newline of a run.
\<close>

function collapse_newlines :: "pystr \<Rightarrow> pystr" where
  "collapse_newlines [] = []"
| "collapse_newlines (c # cs) =
     (if c = 10 \<and> 2 \<le> length (takeWhile (\<lambda>x. x = 10) cs)
      then 10 # 10 # collapse_newlines (dropWhile (\<lambda>x. x = 10) cs)
      else c # collapse_newlines cs)"
  by pat_completeness auto
termination
  by (relation "measure length") (auto simp: length_dropWhile_le less_Suc_eq_le)

definition normalize_whitespace :: "pystr \<Rightarrow> pystr" where
  "normalize_whitespace text =
     (let text = replace_all [13] [10] (replace_all [13, 10] [10] text);
          text = replace_all [9] [32] text;
          text = collapse_spaces text;
          lines = map strip (split_lines text);
          text = join [10] lines;
          text = collapse_newlines text
      in strip text)"

text \<open>
  Three shapes of a text that the stages of \<^verbatim>\<open>normalize_whitespace\<close> produce. In
  \<open>spaces_single\<close> every whitespace character other than the newline is a space with no
  such character after it. In \<open>lines_stripped\<close> no such character stands at the start
  of a line (\<open>at_start\<close> says that a line begins here) or at its end. In
  \<open>newlines_bounded\<close> no newline follows two others (\<open>seen\<close> counts the newlines just
  passed).
\<close>

fun spaces_single :: "pystr \<Rightarrow> bool" where
  "spaces_single [] = True"
| "spaces_single (c # cs) =
     (if is_hspace c then c = 32 \<and> \<not> next_word is_hspace cs \<and> spaces_single cs
      else spaces_single cs)"

fun lines_stripped :: "bool \<Rightarrow> pystr \<Rightarrow> bool" where
  "lines_stripped at_start [] = True"
| "lines_stripped at_start (c # cs) =
     (if c = 10 then lines_stripped True cs
      else if is_hspace c then \<not> at_start \<and> cs \<noteq> [] \<and> hd cs \<noteq> 10 \<and> lines_stripped False cs
      else lines_stripped False cs)"

fun newlines_bounded :: "nat \<Rightarrow> pystr \<Rightarrow> bool" where
  "newlines_bounded seen [] = True"
| "newlines_bounded seen (c # cs) =
     (if c = 10 then seen < 2 \<and> newlines_bounded (Suc seen) cs
      else newlines_bounded 0 cs)"

section \<open>Rule 6: the two date passes\<close>

text \<open>
  One way for \<^verbatim>\<open>(\d{1,2})/(\d{1,2})/(\d{4})\b\<close> to match at the start of \<open>t\<close>: the first
  group with \<open>mlen\<close> digits and the second with \<open>dlen\<close>. The slash is U+002F. The result
  is the three groups and the length of the match.
\<close>

definition try_us_date ::
  "(codepoint \<Rightarrow> nat option) \<Rightarrow> (codepoint \<Rightarrow> bool) \<Rightarrow> nat \<Rightarrow> nat \<Rightarrow> pystr \<Rightarrow>
   ((pystr \<times> pystr \<times> pystr) \<times> nat) option" where
  "try_us_date dec word mlen dlen t =
     (let month = take mlen t; t1 = drop mlen t;
          day = take dlen (drop 1 t1); t2 = drop dlen (drop 1 t1);
          year = take 4 (drop 1 t2); rest = drop 4 (drop 1 t2) in
      if length month = mlen \<and> list_all (is_digit dec) month \<and> take 1 t1 = [47] \<and>
         length day = dlen \<and> list_all (is_digit dec) day \<and> take 1 t2 = [47] \<and>
         length year = 4 \<and> list_all (is_digit dec) year \<and>
         is_word dec word (last year) \<noteq> next_word (is_word dec word) rest
      then Some ((month, day, year), mlen + dlen + 6)
      else None)"

text \<open>
  The matcher tries the ways in the order of the regular-expression engine: both groups
  are greedy, and the later group is reconsidered first.
\<close>

definition match_us_date ::
  "(codepoint \<Rightarrow> nat option) \<Rightarrow> (codepoint \<Rightarrow> bool) \<Rightarrow> pystr \<Rightarrow>
   ((pystr \<times> pystr \<times> pystr) \<times> nat) option" where
  "match_us_date dec word t =
     (case try_us_date dec word 2 2 t of
        Some r \<Rightarrow> Some r
      | None \<Rightarrow>
         (case try_us_date dec word 2 1 t of
            Some r \<Rightarrow> Some r
          | None \<Rightarrow>
             (case try_us_date dec word 1 2 t of
                Some r \<Rightarrow> Some r
              | None \<Rightarrow> try_us_date dec word 1 1 t)))"

text \<open>
  \<^verbatim>\<open>re.sub(r'\b(\d{1,2})/(\d{1,2})/(\d{4})\b', replace_us_date, text)\<close>. \<open>prev\<close> says
  whether the character before the position is a word character; the opening \<^verbatim>\<open>\b\<close>
  asks that the first character differ from it in that.
\<close>

function sub_us_dates ::
  "(codepoint \<Rightarrow> nat option) \<Rightarrow> (codepoint \<Rightarrow> bool) \<Rightarrow> bool \<Rightarrow> pystr \<Rightarrow> error + pystr" where
  "sub_us_dates dec word prev [] = Inr []"
| "sub_us_dates dec word prev (c # cs) =
     (case (if prev \<noteq> is_word dec word c then match_us_date dec word (c # cs) else None) of
        Some (groups, n) \<Rightarrow>
          (case replace_us_date dec groups of
             Inl e \<Rightarrow> Inl e
           | Inr r \<Rightarrow>
              (case sub_us_dates dec word True (drop (n - 1) cs) of
                 Inl e \<Rightarrow> Inl e
               | Inr out \<Rightarrow> Inr (r @ out)))
      | None \<Rightarrow>
          (case sub_us_dates dec word (is_word dec word c) cs of
             Inl e \<Rightarrow> Inl e
           | Inr out \<Rightarrow> Inr (c # out)))"
  by pat_completeness auto
termination
  by (relation "measure (\<lambda>(d, w, p, t). length t)") auto

text \<open>
  \<^verbatim>\<open>(\d{4})-(\d{2})-(\d{2})\b\<close> at the start of \<open>t\<close>; the hyphen is U+002D. The groups are
  year, month and day, and the match has ten characters.
\<close>

definition match_iso_date ::
  "(codepoint \<Rightarrow> nat option) \<Rightarrow> (codepoint \<Rightarrow> bool) \<Rightarrow> pystr \<Rightarrow> (pystr \<times> pystr \<times> pystr) option"
where
  "match_iso_date dec word t =
     (let year = take 4 t; month = take 2 (drop 5 t); day = take 2 (drop 8 t); rest = drop 10 t in
      if length year = 4 \<and> list_all (is_digit dec) year \<and> take 1 (drop 4 t) = [45] \<and>
         length month = 2 \<and> list_all (is_digit dec) month \<and> take 1 (drop 7 t) = [45] \<and>
         length day = 2 \<and> list_all (is_digit dec) day \<and>
         is_word dec word (last day) \<noteq> next_word (is_word dec word) rest
      then Some (year, month, day)
      else None)"

function sub_iso_dates ::
  "(codepoint \<Rightarrow> nat option) \<Rightarrow> (codepoint \<Rightarrow> bool) \<Rightarrow> bool \<Rightarrow> pystr \<Rightarrow> error + pystr" where
  "sub_iso_dates dec word prev [] = Inr []"
| "sub_iso_dates dec word prev (c # cs) =
     (case (if prev \<noteq> is_word dec word c then match_iso_date dec word (c # cs) else None) of
        Some groups \<Rightarrow>
          (case replace_iso_date dec groups of
             Inl e \<Rightarrow> Inl e
           | Inr r \<Rightarrow>
              (case sub_iso_dates dec word True (drop 9 cs) of
                 Inl e \<Rightarrow> Inl e
               | Inr out \<Rightarrow> Inr (r @ out)))
      | None \<Rightarrow>
          (case sub_iso_dates dec word (is_word dec word c) cs of
             Inl e \<Rightarrow> Inl e
           | Inr out \<Rightarrow> Inr (c # out)))"
  by pat_completeness auto
termination
  by (relation "measure (\<lambda>(d, w, p, t). length t)") auto




text \<open>The month name that either date callback puts first.\<close>

definition month_name :: "pystr \<Rightarrow> pystr" where
  "month_name month = (case map_of MONTHS month of None \<Rightarrow> month | Some name \<Rightarrow> name)"

section \<open>The numeral speller against its reference definition\<close>

lemma getitem_in_range: "0 \<le> i \<Longrightarrow> i < int (length xs) \<Longrightarrow> getitem xs i = Inr (xs ! nat i)"
  by (simp add: getitem_def)

lemma length_ONES: "length ONES = 20" by (simp add: ONES_def)
lemma length_TENS: "length TENS = 10" by (simp add: TENS_def)
lemma length_SCALES: "length SCALES = 5" by (simp add: SCALES_def)

lemma mod1000_pos: "(a::int) mod 1000 \<noteq> 0 \<Longrightarrow> 0 < a mod 1000"
  by (intro le_neq_trans) auto

lemma div1000_less:
  assumes "(a::int) < 1000 * K"
  shows "a div 1000 < K"
proof -
  define q where "q = a div 1000"
  define r where "r = a mod 1000"
  have "1000 * q + r = a" unfolding q_def r_def by (rule mult_div_mod_eq)
  moreover have "0 \<le> r" unfolding r_def by simp
  ultimately have "q < K" using assms by linarith
  then show ?thesis by (simp only: q_def)
qed

lemma ntw_below_100:
  assumes "0 < n" "n < 100"
  shows "number_to_words n = Inr (spec_below_100 (nat n))"
proof (cases "n < 20")
  case True
  with assms have "nat n < 20" by simp
  with True assms show ?thesis
    by (subst number_to_words.simps) (simp add: getitem_in_range length_ONES spec_below_100_def)
next
  case False
  with assms have nn: "\<not> nat n < 20" by simp
  from False assms have t: "0 \<le> n div 10" "n div 10 < 10" "0 \<le> n mod 10" "n mod 10 < 20" by auto
  have d: "nat n div 10 = nat (n div 10)" "nat n mod 10 = nat (n mod 10)"
    using assms by (simp_all add: nat_div_distrib nat_mod_distrib)
  have z: "(n mod 10 \<le> 0) = (n mod 10 = 0)" by presburger
  from False assms show ?thesis
    by (subst number_to_words.simps)
       (simp add: getitem_in_range length_ONES length_TENS spec_below_100_def t d nn z Let_def)
qed


lemma ntw_below_1000_small:
  assumes "0 < n" "n < 1000" "n < 100"
  shows "number_to_words n = Inr (spec_below_1000 (nat n))"
proof -
  from assms have "nat n < 100" by simp
  then have "spec_below_1000 (nat n) = spec_below_100 (nat n)" by (simp add: spec_below_1000_def)
  then show ?thesis using ntw_below_100 [OF assms(1) assms(3)] by simp
qed

lemma ntw_below_1000_large:
  assumes "0 < n" "n < 1000" "\<not> n < 100"
  shows "number_to_words n = Inr (spec_below_1000 (nat n))"
proof -
  from assms have nn: "\<not> nat n < 100" by simp
  from assms have t: "0 \<le> n div 100" "n div 100 < 20" by auto
  have d: "nat n div 100 = nat (n div 100)" "nat n mod 100 = nat (n mod 100)"
    using assms by (simp_all add: nat_div_distrib nat_mod_distrib)
  have h: "getitem ONES (n div 100) = Inr (ONES ! nat (n div 100))"
    using t by (simp add: getitem_in_range length_ONES)
  show ?thesis
  proof (cases "n mod 100 = 0")
    case True
    with assms h show ?thesis
      by (subst number_to_words.simps) (simp add: spec_below_1000_def nn d Let_def)
  next
    case False
    then have "0 < n mod 100" "n mod 100 < 100" by presburger+
    then have r: "number_to_words (n mod 100) = Inr (spec_below_100 (nat (n mod 100)))"
      by (rule ntw_below_100)
    have z: "nat (n mod 100) \<noteq> 0" using \<open>0 < n mod 100\<close> by simp
    from assms h r False z show ?thesis
      by (subst number_to_words.simps) (simp add: spec_below_1000_def nn d Let_def str_def)
  qed
qed

lemma ntw_below_1000:
  assumes "0 < n" "n < 1000"
  shows "number_to_words n = Inr (spec_below_1000 (nat n))"
  using assms ntw_below_1000_small [of n] ntw_below_1000_large [of n] by blast

lemma spec_groups_step:
  assumes "0 < n"
  shows "spec_groups (nat n) = nat (n mod 1000) # spec_groups (nat (n div 1000))"
proof -
  have a: "nat n \<noteq> 0" using assms by simp
  have b: "nat n mod 1000 = nat (n mod 1000)" "nat n div 1000 = nat (n div 1000)"
    using assms by (simp_all add: nat_div_distrib nat_mod_distrib)
  have "spec_groups (nat n) = nat n mod 1000 # spec_groups (nat n div 1000)"
    using a by (subst spec_groups.simps) simp
  then show ?thesis by (simp only: b)
qed

lemma spec_parts_step:
  assumes "0 < n" "0 \<le> i"
  shows "spec_parts (nat i) (nat n) =
        (if n mod 1000 \<noteq> 0 then [spec_group_words (nat i, nat (n mod 1000))] else [])
        @ spec_parts (nat (i + 1)) (nat (n div 1000))"
proof -
  have si: "nat (i + 1) = Suc (nat i)" using assms by simp
  show ?thesis
  proof (cases "n mod 1000 = 0")
    case True
    then show ?thesis
      unfolding spec_parts_def spec_groups_step [OF assms(1)] si by simp
  next
    case False
    then show ?thesis
      unfolding spec_parts_def spec_groups_step [OF assms(1)] si
      by (simp del: nat_eq_iff nat_0_iff)
  qed
qed

lemma group_loop_zero: "group_loop 0 i parts = Inr (join (str '' '') (rev parts))"
  by (subst group_loop.simps) simp

lemma group_loop_skip:
  "0 < n \<Longrightarrow> n mod 1000 = 0 \<Longrightarrow>
   group_loop n i parts = group_loop (n div 1000) (i + 1) parts"
  by (subst group_loop.simps) (simp add: Let_def)

lemma group_loop_units:
  "0 < n \<Longrightarrow> n mod 1000 \<noteq> 0 \<Longrightarrow> number_to_words (n mod 1000) = Inr w \<Longrightarrow> \<not> 0 < i \<Longrightarrow>
   group_loop n i parts = group_loop (n div 1000) (i + 1) (parts @ [w])"
  by (subst group_loop.simps) (simp add: Let_def)

lemma group_loop_scaled:
  "0 < n \<Longrightarrow> n mod 1000 \<noteq> 0 \<Longrightarrow> number_to_words (n mod 1000) = Inr w \<Longrightarrow> 0 < i \<Longrightarrow>
   getitem SCALES i = Inr sc \<Longrightarrow>
   group_loop n i parts = group_loop (n div 1000) (i + 1) (parts @ [w @ str '' '' @ sc])"
  by (subst group_loop.simps) (simp add: Let_def)

lemma group_loop_spec:
  assumes "0 \<le> n" "0 \<le> i" "n < 1000 ^ (5 - nat i)"
  shows "group_loop n i parts = Inr (join (str '' '') (rev (parts @ spec_parts (nat i) (nat n))))"
  using assms
proof (induction "nat n" arbitrary: n i parts rule: less_induct)
  case less
  show ?case
  proof (cases "n = 0")
    case True
    have "spec_groups 0 = []" by (subst spec_groups.simps) simp
    then have "spec_parts (nat i) 0 = []" by (simp add: spec_parts_def)
    with True show ?thesis by (simp add: group_loop_zero)
  next
    case False
    with less.prems(1) have pos: "0 < n" by simp
    have inn: "0 \<le> i" by (rule less.prems(2))
    have "n div 1000 < n" using pos by (rule int_div_less_self) simp
    with pos have lt: "nat (n div 1000) < nat n" by (simp only: zless_nat_conj)
    have i5: "nat i < 5"
    proof (rule ccontr)
      assume "\<not> nat i < 5"
      then have "5 - nat i = 0" by simp
      with less.prems(3) have "n < 1" by simp
      with pos show False by simp
    qed
    define j where "j = 5 - nat (i + 1)"
    define K :: int where "K = 1000 ^ j"
    have "5 - nat i = Suc j" using i5 inn by (simp add: j_def nat_add_distrib)
    then have "(1000::int) ^ (5 - nat i) = 1000 * K" by (simp only: power_Suc K_def)
    with less.prems(3) have "n < 1000 * K" by (simp only:)
    then have "n div 1000 < K" by (rule div1000_less)
    then have bound: "n div 1000 < 1000 ^ (5 - nat (i + 1))" by (simp only: K_def j_def)
    have "0 \<le> n div 1000" using pos by (simp add: pos_imp_zdiv_nonneg_iff)
    moreover have "0 \<le> i + 1" using inn by simp
    ultimately have IH: "group_loop (n div 1000) (i + 1) ps =
        Inr (join (str '' '') (rev (ps @ spec_parts (nat (i + 1)) (nat (n div 1000)))))" for ps
      using less.hyps [OF lt _ _ bound] by blast
    define X where "X = (if n mod 1000 \<noteq> 0 then [spec_group_words (nat i, nat (n mod 1000))] else [])"
    have sp: "spec_parts (nat i) (nat n) = X @ spec_parts (nat (i + 1)) (nat (n div 1000))"
      unfolding X_def by (rule spec_parts_step [OF pos inn])
    have step: "group_loop n i parts = group_loop (n div 1000) (i + 1) (parts @ X)"
    proof (cases "n mod 1000 = 0")
      case True
      then have "X = []" by (simp add: X_def)
      with group_loop_skip [OF pos True] show ?thesis by simp
    next
      case nz: False
      then have "0 < n mod 1000" "n mod 1000 < 1000" by (simp_all add: mod1000_pos)
      then have c: "number_to_words (n mod 1000) = Inr (spec_below_1000 (nat (n mod 1000)))"
        by (rule ntw_below_1000)
      have X1: "X = [spec_group_words (nat i, nat (n mod 1000))]"
        unfolding X_def using nz by (rule if_P)
      show ?thesis
      proof (cases "0 < i")
        case True
        with i5 have sc: "getitem SCALES i = Inr (SCALES ! nat i)"
          by (intro getitem_in_range) (simp_all add: length_SCALES)
        from True have "0 < nat i" by simp
        then have "spec_group_words (nat i, nat (n mod 1000)) =
            spec_below_1000 (nat (n mod 1000)) @ str '' '' @ SCALES ! nat i"
          by (simp add: spec_group_words_def)
        with group_loop_scaled [OF pos nz c True sc] X1 show ?thesis by (simp only:)
      next
        case False
        then have "\<not> 0 < nat i" by simp
        then have "spec_group_words (nat i, nat (n mod 1000)) = spec_below_1000 (nat (n mod 1000))"
          by (simp add: spec_group_words_def)
        with group_loop_units [OF pos nz c False] X1 show ?thesis by (simp only:)
      qed
    qed
    show ?thesis by (simp only: step IH sp append_assoc)
  qed
qed

lemma number_to_words_spec:
  assumes "\<bar>n\<bar> < 1000000000000000"
  shows "number_to_words n = Inr (spec_number_to_words n)"
proof -
  have pos: "number_to_words m = Inr (spec_positive (nat m))" if "0 < m" "m < 1000000000000000" for m
  proof (cases "m < 1000")
    case True
    with that have "nat m < 1000" by simp
    with True that show ?thesis by (simp add: ntw_below_1000 spec_positive_def)
  next
    case False
    with that have nn: "\<not> nat m < 1000" by simp
    have "group_loop m 0 [] = Inr (join (str '' '') (rev ([] @ spec_parts (nat 0) (nat m))))"
      using that by (intro group_loop_spec) auto
    with False that show ?thesis
      by (subst number_to_words.simps) (simp add: spec_positive_def nn)
  qed
  show ?thesis
  proof (cases "n = 0")
    case True
    then show ?thesis by (subst number_to_words.simps) (simp add: spec_number_to_words_def)
  next
    case nz: False
    show ?thesis
    proof (cases "n < 0")
      case True
      with assms have "number_to_words (- n) = Inr (spec_positive (nat (- n)))"
        by (intro pos) auto
      with True show ?thesis
        by (subst number_to_words.simps) (simp add: spec_number_to_words_def)
    next
      case False
      with nz assms have "number_to_words n = Inr (spec_positive (nat n))"
        by (intro pos) auto
      with False nz show ?thesis by (simp add: spec_number_to_words_def)
    qed
  qed
qed

text \<open>
  Claim C3, as amended. For every integer \<open>n\<close> of absolute value below \<open>10\<^sup>1\<^sup>5\<close> the
  speller returns the words of the reference definition: ``zero'' for 0, ``negative''
  and the words of \<open>-n\<close> for a negative number, the table word below twenty,
  tens-hyphen-ones below one hundred, ``hundred'' and the remainder below one thousand,
  and the scaled three-digit groups, most significant first, from one thousand on.
\<close>

theorem number_to_words_matches_reference:
  assumes "\<bar>n\<bar> < 1000000000000000"
  shows "number_to_words n = Inr (spec_number_to_words n)"
  using assms by (rule number_to_words_spec)

theorem number_to_words_matches_reference_witness:
  "\<bar>-1002003 :: int\<bar> < 1000000000000000 \<and>
   number_to_words (-1002003) = Inr (spec_number_to_words (-1002003))"
  using number_to_words_matches_reference [of "-1002003"] by simp

text \<open>
  The claim as first stated, for every integer, fails: the scale table has five entries,
  and a number with a sixth three-digit group makes \<^verbatim>\<open>SCALES[scale_idx]\<close> raise
  IndexError, so no words are returned at all.
\<close>

theorem number_to_words_every_integer_counterexample:
  "number_to_words 1000000000000000 = Inl IndexError \<and>
   number_to_words 1000000000000000 \<noteq> Inr (spec_number_to_words 1000000000000000)"
proof -
  have "number_to_words 1000000000000000 = Inl IndexError" by code_simp
  then show ?thesis by simp
qed

section \<open>The chunker: bound, order and shape of the chunks\<close>

lemma join_snoc: "ps \<noteq> [] \<Longrightarrow> join sep (ps @ [p]) = join sep ps @ sep @ p"
  by (induction sep ps rule: join.induct) auto

lemma join_nonempty: "ps \<noteq> [] \<Longrightarrow> hd ps \<noteq> [] \<Longrightarrow> join sep ps \<noteq> []"
  by (induction sep ps rule: join.induct) auto

lemma hd_join: "ps \<noteq> [] \<Longrightarrow> hd ps \<noteq> [] \<Longrightarrow> hd (join sep ps) = hd (hd ps)"
  by (induction sep ps rule: join.induct) auto

lemma join_nonempty_last: "ps \<noteq> [] \<Longrightarrow> last ps \<noteq> [] \<Longrightarrow> join sep ps \<noteq> []"
  by (induction sep ps rule: join.induct) auto

lemma last_join: "ps \<noteq> [] \<Longrightarrow> last ps \<noteq> [] \<Longrightarrow> last (join sep ps) = last (last ps)"
proof (induction sep ps rule: join.induct)
  case (3 sep p q ps)
  then have "join sep (q # ps) \<noteq> []"
    by (intro join_nonempty_last) auto
  with 3 show ?case by simp
qed auto

lemma last_dropWhile: "dropWhile P xs \<noteq> [] \<Longrightarrow> last (dropWhile P xs) = last xs"
proof -
  assume a: "dropWhile P xs \<noteq> []"
  have "last xs = last (takeWhile P xs @ dropWhile P xs)" by simp
  also have "\<dots> = last (dropWhile P xs)" using a by (simp only: last_append if_False)
  finally show ?thesis by simp
qed

lemma strip_ends:
  assumes "strip s \<noteq> []"
  shows "\<not> is_space (hd (strip s)) \<and> \<not> is_space (last (strip s))"
proof -
  define t where "t = dropWhile is_space s"
  define u where "u = dropWhile is_space (rev t)"
  have su: "strip s = rev u" by (simp add: strip_def u_def t_def)
  with assms have u: "u \<noteq> []" by simp
  then have "rev t \<noteq> []" by (auto simp: u_def)
  then have t: "t \<noteq> []" by simp
  have "\<not> is_space (hd u)" using u unfolding u_def by (rule hd_dropWhile)
  then have l: "\<not> is_space (last (strip s))" using u by (simp add: su last_rev)
  have "last u = last (rev t)" using u unfolding u_def by (rule last_dropWhile)
  then have "last u = hd t" using t by (simp add: last_rev)
  moreover have "\<not> is_space (hd t)" using t unfolding t_def by (rule hd_dropWhile)
  ultimately have "\<not> is_space (hd (strip s))" using u by (simp add: su hd_rev)
  with l show ?thesis by simp
qed

lemma chunk_loop_skip:
  "strip s = [] \<Longrightarrow> chunk_loop m (s # ss) (ch, cur, len) = chunk_loop m ss (ch, cur, len)"
  by simp

lemma chunk_loop_long:
  "strip s \<noteq> [] \<Longrightarrow> m < int (length (strip s)) \<Longrightarrow>
   chunk_loop m (s # ss) (ch, cur, len) =
     (if cur \<noteq> [] then chunk_loop m ss ((ch @ [join (str '' '') cur]) @ [strip s], [], 0)
      else chunk_loop m ss (ch @ [strip s], cur, len))"
  by (simp add: Let_def)

lemma chunk_loop_flush:
  "strip s \<noteq> [] \<Longrightarrow> \<not> m < int (length (strip s)) \<Longrightarrow>
   len + (if cur \<noteq> [] then 1 else 0) + int (length (strip s)) > m \<Longrightarrow>
   chunk_loop m (s # ss) (ch, cur, len) =
     chunk_loop m ss (if cur \<noteq> [] then ch @ [join (str '' '') cur] else ch,
        [strip s], int (length (strip s)))"
  by (simp add: Let_def)

lemma chunk_loop_append:
  "strip s \<noteq> [] \<Longrightarrow> \<not> m < int (length (strip s)) \<Longrightarrow>
   \<not> len + (if cur \<noteq> [] then 1 else 0) + int (length (strip s)) > m \<Longrightarrow>
   chunk_loop m (s # ss) (ch, cur, len) =
     chunk_loop m ss (ch, cur @ [strip s],
        len + (if cur \<noteq> [] then 1 else 0) + int (length (strip s)))"
  by (simp add: Let_def)


declare chunk_loop.simps(2) [simp del]

lemma within_limit_single_long: "m < int (length t) \<Longrightarrow> within_limit m [t]"
  by (simp add: within_limit_def)

lemma within_limit_fits:
  "g \<noteq> [] \<Longrightarrow> int (length (join (str '' '') g)) \<le> m \<Longrightarrow> within_limit m g"
  by (simp add: within_limit_def)

lemma chunk_loop_groups:
  assumes "\<forall>g\<in>set gs. within_limit m g"
    and "cur \<noteq> [] \<Longrightarrow> len = int (length (join (str '' '') cur)) \<and> len \<le> m"
    and "cur = [] \<Longrightarrow> len = 0"
  shows "\<exists>gs' cur' len'.
           chunk_loop m ss (map (join (str '' '')) gs, cur, len) =
             (map (join (str '' '')) gs', cur', len') \<and>
           (\<forall>g\<in>set gs'. within_limit m g) \<and>
           (cur' \<noteq> [] \<longrightarrow> int (length (join (str '' '') cur')) \<le> m) \<and>
           concat gs' @ cur' = concat gs @ cur @ filter (\<lambda>s. s \<noteq> []) (map strip ss)"
  using assms
proof (induction ss arbitrary: gs cur len)
  case Nil
  then show ?case by auto
next
  case (Cons s ss)
  let ?J = "join (str '' '')"
  let ?t = "strip s"
  let ?rest = "filter (\<lambda>s. s \<noteq> []) (map strip ss)"
  show ?case
  proof (cases "?t = []")
    case True
    from Cons.IH [OF Cons.prems] obtain gs' cur' len' where
      r: "chunk_loop m ss (map ?J gs, cur, len) = (map ?J gs', cur', len')"
         "\<forall>g\<in>set gs'. within_limit m g"
         "cur' \<noteq> [] \<longrightarrow> int (length (?J cur')) \<le> m"
         "concat gs' @ cur' = concat gs @ cur @ ?rest"
      by blast
    from True r(1) have "chunk_loop m (s # ss) (map ?J gs, cur, len) = (map ?J gs', cur', len')"
      by (simp only: chunk_loop_skip)
    moreover from True r(4) have "concat gs' @ cur' =
        concat gs @ cur @ filter (\<lambda>s. s \<noteq> []) (map strip (s # ss))" by simp
    ultimately show ?thesis using r(2,3) by blast
  next
    case ne: False
    show ?thesis
    proof (cases "m < int (length ?t)")
      case long: True
      show ?thesis
      proof (cases "cur = []")
        case True
        with Cons.prems(3) have len0: "len = 0" by simp
        have st: "chunk_loop m (s # ss) (map ?J gs, cur, len) =
            chunk_loop m ss (map ?J (gs @ [[?t]]), [], 0)"
          using True len0 by (simp add: chunk_loop_long [OF ne long])
        have a: "\<forall>g\<in>set (gs @ [[?t]]). within_limit m g"
          using Cons.prems(1) within_limit_single_long [OF long] by auto
        from Cons.IH [OF a] obtain gs' cur' len' where
          r: "chunk_loop m ss (map ?J (gs @ [[?t]]), [], 0) = (map ?J gs', cur', len')"
             "\<forall>g\<in>set gs'. within_limit m g"
             "cur' \<noteq> [] \<longrightarrow> int (length (?J cur')) \<le> m"
             "concat gs' @ cur' = concat (gs @ [[?t]]) @ [] @ ?rest"
          by blast
        from r(4) True have "concat gs' @ cur' =
            concat gs @ cur @ filter (\<lambda>s. s \<noteq> []) (map strip (s # ss))"
          using ne by simp
        with st r(1,2,3) show ?thesis by metis
      next
        case False
        with Cons.prems(2) have fit: "int (length (?J cur)) \<le> m" by simp
        have st: "chunk_loop m (s # ss) (map ?J gs, cur, len) =
            chunk_loop m ss (map ?J (gs @ [cur, [?t]]), [], 0)"
          using False by (simp add: chunk_loop_long [OF ne long])
        have a: "\<forall>g\<in>set (gs @ [cur, [?t]]). within_limit m g"
          using Cons.prems(1) within_limit_single_long [OF long] within_limit_fits [OF False fit]
          by auto
        from Cons.IH [OF a] obtain gs' cur' len' where
          r: "chunk_loop m ss (map ?J (gs @ [cur, [?t]]), [], 0) = (map ?J gs', cur', len')"
             "\<forall>g\<in>set gs'. within_limit m g"
             "cur' \<noteq> [] \<longrightarrow> int (length (?J cur')) \<le> m"
             "concat gs' @ cur' = concat (gs @ [cur, [?t]]) @ [] @ ?rest"
          by blast
        from r(4) have "concat gs' @ cur' =
            concat gs @ cur @ filter (\<lambda>s. s \<noteq> []) (map strip (s # ss))"
          using ne by simp
        with st r(1,2,3) show ?thesis by metis
      qed
    next
      case short: False
      then have tfit: "int (length ?t) \<le> m" by simp
      show ?thesis
      proof (cases "len + (if cur \<noteq> [] then 1 else 0) + int (length ?t) > m")
        case over: True
        define gs1 where "gs1 = (if cur \<noteq> [] then gs @ [cur] else gs)"
        have st: "chunk_loop m (s # ss) (map ?J gs, cur, len) =
            chunk_loop m ss (map ?J gs1, [?t], int (length ?t))"
          by (simp add: chunk_loop_flush [OF ne short over] gs1_def)
        have a: "\<forall>g\<in>set gs1. within_limit m g"
          using Cons.prems(1,2) by (auto simp: gs1_def within_limit_fits)
        have b: "[?t] \<noteq> [] \<Longrightarrow> int (length ?t) = int (length (?J [?t])) \<and> int (length ?t) \<le> m"
          using tfit by simp
        have c: "[?t] = [] \<Longrightarrow> int (length ?t) = 0" by simp
        from Cons.IH [OF a b c] obtain gs' cur' len' where
          r: "chunk_loop m ss (map ?J gs1, [?t], int (length ?t)) = (map ?J gs', cur', len')"
             "\<forall>g\<in>set gs'. within_limit m g"
             "cur' \<noteq> [] \<longrightarrow> int (length (?J cur')) \<le> m"
             "concat gs' @ cur' = concat gs1 @ [?t] @ ?rest"
          by blast
        from r(4) have "concat gs' @ cur' =
            concat gs @ cur @ filter (\<lambda>s. s \<noteq> []) (map strip (s # ss))"
          using ne by (simp add: gs1_def)
        with st r(1,2,3) show ?thesis by metis
      next
        case fits: False
        define len1 where "len1 = len + (if cur \<noteq> [] then 1 else 0) + int (length ?t)"
        have st: "chunk_loop m (s # ss) (map ?J gs, cur, len) =
            chunk_loop m ss (map ?J gs, cur @ [?t], len1)"
          by (simp only: chunk_loop_append [OF ne short fits] len1_def)
        have l1: "len1 = int (length (?J (cur @ [?t])))"
        proof (cases "cur = []")
          case True
          with Cons.prems(3) show ?thesis by (simp add: len1_def)
        next
          case False
          with Cons.prems(2) show ?thesis by (simp add: len1_def join_snoc str_def)
        qed
        have b: "cur @ [?t] \<noteq> [] \<Longrightarrow> len1 = int (length (?J (cur @ [?t]))) \<and> len1 \<le> m"
          using l1 fits by (simp add: len1_def)
        have c: "cur @ [?t] = [] \<Longrightarrow> len1 = 0" by simp
        from Cons.IH [OF Cons.prems(1) b c] obtain gs' cur' len' where
          r: "chunk_loop m ss (map ?J gs, cur @ [?t], len1) = (map ?J gs', cur', len')"
             "\<forall>g\<in>set gs'. within_limit m g"
             "cur' \<noteq> [] \<longrightarrow> int (length (?J cur')) \<le> m"
             "concat gs' @ cur' = concat gs @ (cur @ [?t]) @ ?rest"
          by blast
        from r(4) have "concat gs' @ cur' =
            concat gs @ cur @ filter (\<lambda>s. s \<noteq> []) (map strip (s # ss))"
          using ne by simp
        with st r(1,2,3) show ?thesis by metis
      qed
    qed
  qed
qed

lemma chunk_text_groups:
  "\<exists>groups. chunk_text text m = map (join (str '' '')) groups \<and>
     concat groups = sentences_of text \<and> (\<forall>g\<in>set groups. within_limit m g)"
proof -
  let ?J = "join (str '' '')"
  have "\<exists>gs' cur' len'.
      chunk_loop m (re_split_sentences False [] text) (map ?J [], [], 0) = (map ?J gs', cur', len') \<and>
      (\<forall>g\<in>set gs'. within_limit m g) \<and>
      (cur' \<noteq> [] \<longrightarrow> int (length (?J cur')) \<le> m) \<and>
      concat gs' @ cur' = concat [] @ [] @
        filter (\<lambda>s. s \<noteq> []) (map strip (re_split_sentences False [] text))"
    by (rule chunk_loop_groups) simp_all
  then obtain gs' cur' len' where
    r: "chunk_loop m (re_split_sentences False [] text) ([], [], 0) = (map ?J gs', cur', len')"
       "\<forall>g\<in>set gs'. within_limit m g"
       "cur' \<noteq> [] \<longrightarrow> int (length (?J cur')) \<le> m"
       "concat gs' @ cur' = sentences_of text"
    by (auto simp: sentences_of_def)
  show ?thesis
  proof (cases "cur' = []")
    case True
    with r have "chunk_text text m = map ?J gs'" "concat gs' = sentences_of text"
      by (simp_all add: chunk_text_def)
    with r(2) show ?thesis by blast
  next
    case False
    with r have "chunk_text text m = map ?J (gs' @ [cur'])"
      "concat (gs' @ [cur']) = sentences_of text"
      "\<forall>g\<in>set (gs' @ [cur']). within_limit m g"
      by (auto simp add: chunk_text_def within_limit_fits)
    then show ?thesis by blast
  qed
qed


lemma sentences_of_stripped:
  assumes "s \<in> set (sentences_of text)"
  shows "s \<noteq> [] \<and> \<not> is_space (hd s) \<and> \<not> is_space (last s)"
proof -
  from assms obtain x where "s = strip x" "strip x \<noteq> []"
    by (auto simp: sentences_of_def)
  then show ?thesis using strip_ends [of x] by simp
qed

lemma re_split_no_end:
  "\<forall>c\<in>set t. \<not> is_sentence_end c \<Longrightarrow> re_split_sentences False piece t = [piece @ t]"
  by (induction t arbitrary: piece) simp_all

lemma space_not_sentence_end: "is_space c \<Longrightarrow> \<not> is_sentence_end c"
  by (auto simp: is_space_def is_sentence_end_def)

lemma dropWhile_all: "\<forall>x\<in>set t. P x \<Longrightarrow> dropWhile P t = []"
  by (induction t) auto

lemma sentences_of_blank:
  assumes "\<forall>x\<in>set text. is_space x"
  shows "sentences_of text = []"
proof -
  from assms have "re_split_sentences False [] text = [[] @ text]"
    by (intro re_split_no_end) (auto dest: space_not_sentence_end)
  moreover have "strip text = []"
  proof -
    from assms have d: "dropWhile is_space text = []" by (rule dropWhile_all)
    show ?thesis unfolding strip_def d by simp
  qed
  ultimately show ?thesis by (simp add: sentences_of_def)
qed

lemma group_members:
  assumes "concat groups = sentences_of text" "g \<in> set groups" "s \<in> set g"
  shows "s \<in> set (sentences_of text)"
proof -
  from assms(2,3) have "s \<in> set (concat groups)" by auto
  with assms(1) show ?thesis by simp
qed

lemma join_singletons:
  "\<forall>g\<in>set groups. \<exists>s. g = [s] \<Longrightarrow> map (join sep) groups = concat groups"
  by (induction groups) auto

text \<open>
  Claim C2. For a positive limit, the chunks are the joins of consecutive groups of the
  non-empty stripped sentences, in their order; every group gives a chunk of at most
  \<open>max_chars\<close> characters or is one sentence longer than \<open>max_chars\<close>, emitted as it is.
\<close>

theorem chunk_text_bounded_in_order:
  "0 < max_chars \<Longrightarrow>
   \<exists>groups. chunk_text text max_chars = map (join (str '' '')) groups \<and>
     concat groups = sentences_of text \<and> (\<forall>g\<in>set groups. within_limit max_chars g)"
  by (rule chunk_text_groups)

text \<open>
  Claim C10. Every chunk is non-empty and neither begins nor ends with whitespace, for
  every text and every limit; a text of whitespace only gives no chunk.
\<close>

theorem chunk_text_chunks_stripped:
  "(\<forall>c\<in>set (chunk_text text max_chars). c \<noteq> [] \<and> \<not> is_space (hd c) \<and> \<not> is_space (last c)) \<and>
   ((\<forall>x\<in>set text. is_space x) \<longrightarrow> chunk_text text max_chars = [])"
proof -
  let ?J = "join (str '' '')"
  obtain groups where
    g: "chunk_text text max_chars = map ?J groups" "concat groups = sentences_of text"
       "\<forall>g\<in>set groups. within_limit max_chars g"
    using chunk_text_groups by blast
  have "c \<noteq> [] \<and> \<not> is_space (hd c) \<and> \<not> is_space (last c)"
    if "c \<in> set (chunk_text text max_chars)" for c
  proof -
    from that g(1) obtain gr where gr: "gr \<in> set groups" "c = ?J gr" by auto
    with g(3) have ne: "gr \<noteq> []" by (simp add: within_limit_def)
    then have "hd gr \<in> set gr" "last gr \<in> set gr" by simp_all
    then have "hd gr \<in> set (sentences_of text)" "last gr \<in> set (sentences_of text)"
      using group_members [OF g(2) gr(1)] by blast+
    then have h: "hd gr \<noteq> []" "\<not> is_space (hd (hd gr))"
      and l: "last gr \<noteq> []" "\<not> is_space (last (last gr))"
      using sentences_of_stripped by blast+
    from ne h l show ?thesis
      by (simp add: gr(2) join_nonempty hd_join last_join)
  qed
  moreover have "chunk_text text max_chars = []" if "\<forall>x\<in>set text. is_space x"
  proof -
    from that g(2) have "concat groups = []" by (simp add: sentences_of_blank)
    then have "\<forall>gr\<in>set groups. gr = []" by simp
    with g(3) have "set groups = {}" by (auto simp: within_limit_def)
    with g(1) show ?thesis by simp
  qed
  ultimately show ?thesis by blast
qed

text \<open>
  Claim C9, as amended. Neither \<^verbatim>\<open>chunk_text\<close> nor the constructor checks the limit. With
  a limit of zero or less every sentence is longer than the limit, so the result is the
  list of the non-empty stripped sentences, one chunk each, and \<^verbatim>\<open>convert_and_chunk\<close>
  returns that list for the converted text.
\<close>

theorem chunk_text_nonpositive_limit:
  assumes "max_chars \<le> 0"
  shows "chunk_text text max_chars = sentences_of text \<and>
         (convert text = Inr t \<longrightarrow>
            convert_and_chunk convert (init max_chars) text = Inr (sentences_of t))"
proof -
  let ?J = "join (str '' '')"
  have a: "chunk_text u max_chars = sentences_of u" for u
  proof -
    obtain groups where
      g: "chunk_text u max_chars = map ?J groups" "concat groups = sentences_of u"
         "\<forall>g\<in>set groups. within_limit max_chars g"
      using chunk_text_groups by blast
    have "\<exists>s. gr = [s]" if "gr \<in> set groups" for gr
    proof -
      from that g(3) have w: "within_limit max_chars gr" by blast
      then have ne: "gr \<noteq> []" by (simp add: within_limit_def)
      then have "hd gr \<in> set gr" by simp
      then have "hd gr \<in> set (sentences_of u)" using group_members [OF g(2) that] by blast
      then have "hd gr \<noteq> []" using sentences_of_stripped by blast
      with ne have "?J gr \<noteq> []" by (rule join_nonempty)
      then have "0 < length (?J gr)" by simp
      then have "0 < int (length (?J gr))" by (simp only: of_nat_0_less_iff)
      with assms have "\<not> int (length (?J gr)) \<le> max_chars" by linarith
      with w show ?thesis by (auto simp: within_limit_def split: list.splits)
    qed
    then have "map ?J groups = concat groups" by (intro join_singletons) blast
    with g(1,2) show ?thesis by simp
  qed
  then show ?thesis by (simp add: convert_and_chunk_def init_def)
qed

lemma chunk_example_text: "str ''Hi there.  Yo! Bye.'' = [72, 105, 32, 116, 104, 101, 114, 101, 46, 32, 32, 89, 111, 33, 32, 66, 121, 101, 46]"
  by (simp add: str_def)

theorem chunk_text_bounded_in_order_witness:
  "(0::int) < 9 \<and>
   chunk_text (str ''Hi there.  Yo! Bye.'') 9 = [str ''Hi there.'', str ''Yo! Bye.''] \<and>
   (\<exists>groups. chunk_text (str ''Hi there.  Yo! Bye.'') 9 = map (join (str '' '')) groups \<and>
      concat groups = sentences_of (str ''Hi there.  Yo! Bye.'') \<and>
      list_all (within_limit 9) groups)"
proof -
  have "chunk_text (str ''Hi there.  Yo! Bye.'') 9 = [str ''Hi there.'', str ''Yo! Bye.'']"
    by (simp add: chunk_text_def str_def is_space_def is_sentence_end_def strip_def
          chunk_loop.simps)
  then show ?thesis
    using chunk_text_bounded_in_order [of 9 "str ''Hi there.  Yo! Bye.''"]
    by (simp add: list_all_iff)
qed

theorem chunk_text_chunks_stripped_witness:
  "chunk_text (str ''Hi there.  Yo! Bye.'') 9 = [str ''Hi there.'', str ''Yo! Bye.''] \<and>
   list_all (\<lambda>c. c \<noteq> [] \<and> \<not> is_space (hd c) \<and> \<not> is_space (last c))
     (chunk_text (str ''Hi there.  Yo! Bye.'') 9) \<and>
   list_all is_space (str '' '') \<and> chunk_text (str '' '') 9 = []"
proof -
  have "chunk_text (str ''Hi there.  Yo! Bye.'') 9 = [str ''Hi there.'', str ''Yo! Bye.'']"
    by (simp add: chunk_text_def str_def is_space_def is_sentence_end_def strip_def
          chunk_loop.simps)
  moreover have "\<forall>x\<in>set (str '' ''). is_space x"
    by (simp add: str_def is_space_def)
  ultimately show ?thesis
    using chunk_text_chunks_stripped [of "str ''Hi there.  Yo! Bye.''" 9]
      chunk_text_chunks_stripped [of "str '' ''" 9]
    unfolding list_all_iff by blast
qed

theorem chunk_text_nonpositive_limit_witness:
  "(0::int) \<le> 0 \<and>
   chunk_text (str ''Hi. Yo.'') 0 = sentences_of (str ''Hi. Yo.'') \<and>
   sentences_of (str ''Hi. Yo.'') = [str ''Hi.'', str ''Yo.''] \<and>
   convert_and_chunk Inr (init 0) (str ''Hi. Yo.'') = Inr [str ''Hi.'', str ''Yo.'']"
proof -
  have "sentences_of (str ''Hi. Yo.'') = [str ''Hi.'', str ''Yo.'']"
    by (simp add: sentences_of_def str_def is_space_def is_sentence_end_def strip_def)
  then show ?thesis
    using chunk_text_nonpositive_limit [of 0 "str ''Hi. Yo.''" Inr "str ''Hi. Yo.''"]
    by simp
qed

text \<open>
  The claim as first stated fails: with the limit 0 no error is raised, and the two
  sentences come back as two chunks.
\<close>

theorem chunk_text_zero_limit_counterexample:
  "chunk_text (str ''Hi. Yo.'') 0 = [str ''Hi.'', str ''Yo.'']"
  by (simp add: chunk_text_def str_def is_space_def is_sentence_end_def strip_def
        chunk_loop.simps)

section \<open>Dangerous punctuation: unmatched brackets\<close>

text \<open>
  Claim C5. The docstring of \<^verbatim>\<open>remove_dangerous_punctuation\<close> promises that the six
  characters are removed. Braces and angle brackets are; a square bracket goes only
  as half of a pair: a closing bracket with no opening one before it stays, and of two
  opening brackets before one closing bracket the second stays.
\<close>

theorem remove_dangerous_punctuation_keeps_unmatched_brackets:
  "remove_dangerous_punctuation (str ''a]b'') = str ''a]b'' \<and>
   remove_dangerous_punctuation (str ''[[a]'') = str ''[a''"
  by (simp add: remove_dangerous_punctuation_def remove_char_def str_def)

section \<open>Stages that raise\<close>

lemma number_to_words_quadrillion: "number_to_words 1000000000000000 = Inl IndexError"
  by code_simp

lemma int_of_digits_quadrillion:
  "int_of_digits ascii_decimal (str ''1000000000000000'') = Inr 1000000000000000"
  by (simp add: int_of_digits_def str_def ascii_decimal_def)

lemma replace_number_quadrillion:
  "replace_number ascii_decimal (str ''1000000000000000'') = Inl IndexError"
  by (simp add: replace_number_def int_of_digits_quadrillion number_to_words_quadrillion
        except_ValueError_def)

lemma sub_numbers_quadrillion:
  "sub_numbers ascii_decimal ascii_word False (str ''1000000000000000'') = Inl IndexError"
proof -
  have "sub_numbers ascii_decimal ascii_word False (str ''1000000000000000'') =
     (case replace_number ascii_decimal (str ''1000000000000000'') of
        Inl e \<Rightarrow> Inl e
      | Inr r \<Rightarrow>
         (case sub_numbers ascii_decimal ascii_word True [] of
            Inl e \<Rightarrow> Inl e
          | Inr out \<Rightarrow> Inr (r @ out)))"
    by (simp add: str_def is_digit_def ascii_decimal_def next_word_def)
  then show ?thesis by (simp add: replace_number_quadrillion)
qed

lemma ordinals_quadrillion:
  "foldl (\<lambda>t (ordinal, w). sub_literal (is_word ascii_decimal ascii_word) True ordinal w False t)
     (str ''1000000000000000'') ORDINALS = str ''1000000000000000''"
  by (simp add: ORDINALS_def str_def ci_eq_def fold_case_def is_word_def is_digit_def
        ascii_decimal_def ascii_word_def next_word_def)

text \<open>
  Claim C1. Two stages raise instead of returning the fragment they could not render.
  The number pass catches ValueError only, and a number of sixteen digits makes the
  speller leave its scale table with IndexError. \<^verbatim>\<open>strip_html\<close> hands every numeric
  character reference to \<^verbatim>\<open>chr\<close>, which raises ValueError above U+10FFFF.
\<close>

theorem stages_raise_on_large_numbers:
  "normalize_numbers ascii_decimal ascii_word (str ''1000000000000000'') = Inl IndexError \<and>
   strip_html ascii_decimal (str ''&#1114112;'') = Inl ValueError"
proof -
  have "normalize_numbers ascii_decimal ascii_word (str ''1000000000000000'') = Inl IndexError"
    unfolding normalize_numbers_def ordinals_quadrillion by (rule sub_numbers_quadrillion)
  moreover have "strip_html ascii_decimal (str ''&#1114112;'') = Inl ValueError"
    by (simp add: strip_html_def html_entities_def str_def is_digit_def ascii_decimal_def
          int_of_digits_def py_chr_def)
  ultimately show ?thesis by (rule conjI)
qed

section \<open>List blocks as prose\<close>

text \<open>
  Claim C6. The guard of \<^verbatim>\<open>_list_to_prose\<close> looks at the first two characters of an
  item, to put a capitalised leading word in lower case and to spare an acronym at the
  start; the branch it guards calls \<^verbatim>\<open>item.lower()\<close>, which lower-cases the whole item.
  The words after the leading one lose their capitals, and so do the letters that
  \<^verbatim>\<open>normalize_acronyms\<close> has just spelled out.
\<close>

theorem list_to_prose_lowers_whole_item:
  "list_to_prose ascii_isupper ascii_lower [str ''Buy Milk'', str ''Call Bob''] =
     Inr (str ''Firstly, buy milk Secondly, call bob'') \<and>
   list_to_prose ascii_isupper ascii_lower [str ''Buy Milk'', str ''Call Bob''] \<noteq>
     Inr (str ''Firstly, buy Milk Secondly, call Bob'') \<and>
   list_to_prose ascii_isupper ascii_lower [str ''Use the A P I'', str ''Call Bob''] =
     Inr (str ''Firstly, use the a p i Secondly, call bob'')"
  by (simp add: list_to_prose_def ascii_isupper_def ascii_lower_def second_isupper_def
        ordinals_def str_def)

section \<open>Whitespace normalisation is idempotent\<close>

subsection \<open>Stripping\<close>

lemma strip_fixed:
  assumes "s = [] \<or> (\<not> is_space (hd s) \<and> \<not> is_space (last s))"
  shows "strip s = s"
proof (cases "s = []")
  case True
  then show ?thesis by (simp add: strip_def)
next
  case False
  with assms have h: "\<not> is_space (hd s)" and l: "\<not> is_space (last s)" by simp_all
  from False h have a: "dropWhile is_space s = s" by (cases s) simp_all
  from False l have "\<not> is_space (hd (rev s))" by (simp add: hd_rev)
  with False have b: "dropWhile is_space (rev s) = rev s" by (cases "rev s") simp_all
  show ?thesis unfolding strip_def a b by simp
qed

lemma strip_idem: "strip (strip s) = strip s"
  using strip_ends [of s] by (intro strip_fixed) blast

lemma strip_decomp:
  "\<exists>a b. s = a @ strip s @ b"
proof -
  define d where "d = dropWhile is_space s"
  have "s = takeWhile is_space s @ d" by (simp add: d_def)
  moreover have "rev d = takeWhile is_space (rev d) @ dropWhile is_space (rev d)" by simp
  then have "d = rev (dropWhile is_space (rev d)) @ rev (takeWhile is_space (rev d))"
    by (metis rev_append rev_rev_ident)
  then have "d = strip s @ rev (takeWhile is_space (rev d))" by (simp add: strip_def d_def)
  ultimately show ?thesis by metis
qed

lemma strip_left: "strip s = [] \<or> \<not> is_space (hd (strip s))"
  using strip_ends [of s] by blast

lemma strip_right: "strip s = [] \<or> \<not> is_space (last (strip s))"
  using strip_ends [of s] by blast

lemma hspace_space: "is_hspace c \<Longrightarrow> is_space c"
  by (simp add: is_hspace_def)

lemma newline_space: "is_space 10"
  by (simp add: is_space_def)

lemma not_hspace_newline: "\<not> is_hspace 10"
  by (simp add: is_hspace_def)

subsection \<open>Replacements that find nothing\<close>

lemma replace_all_absent: "hd old \<notin> set t \<Longrightarrow> replace_all old new t = t"
proof (induction t)
  case Nil
  then show ?case by simp
next
  case (Cons c cs)
  then have "take (length old) (c # cs) \<noteq> old \<or> old = []"
    by (cases old) auto
  with Cons show ?case by auto
qed

subsection \<open>Single spaces\<close>

lemma collapse_spaces_Nil: "collapse_spaces t = [] \<longleftrightarrow> t = []"
  by (cases t) simp_all

lemma next_word_collapse:
  "\<not> next_word is_hspace t \<Longrightarrow> \<not> next_word is_hspace (collapse_spaces t)"
  by (cases t) (simp_all add: next_word_def)

lemma next_word_dropWhile: "\<not> next_word P (dropWhile P t)"
  by (induction t) (simp_all add: next_word_def)

lemma spaces_single_collapse: "spaces_single (collapse_spaces t)"
proof (induction t rule: collapse_spaces.induct)
  case 1
  then show ?case by simp
next
  case (2 c cs)
  show ?case
  proof (cases "is_hspace c")
    case True
    with 2 show ?thesis
      by (simp add: next_word_collapse next_word_dropWhile is_hspace_def is_space_def)
  next
    case False
    with 2 show ?thesis by simp
  qed
qed

lemma collapse_spaces_fixed: "spaces_single t \<Longrightarrow> collapse_spaces t = t"
proof (induction t)
  case Nil
  then show ?case by simp
next
  case (Cons c cs)
  show ?case
  proof (cases "is_hspace c")
    case True
    with Cons.prems have c: "c = 32" and n: "\<not> next_word is_hspace cs" and r: "spaces_single cs"
      by simp_all
    from n have "dropWhile is_hspace cs = cs" by (cases cs) (simp_all add: next_word_def)
    with True c Cons.IH [OF r] show ?thesis by simp
  next
    case False
    with Cons show ?thesis by simp
  qed
qed

lemma spaces_single_append:
  "spaces_single (a @ b) \<Longrightarrow> spaces_single a \<and> spaces_single b"
proof (induction a)
  case Nil
  then show ?case by simp
next
  case (Cons c a)
  show ?case
  proof (cases "is_hspace c")
    case True
    with Cons.prems have "spaces_single (a @ b)" and n: "\<not> next_word is_hspace (a @ b)" and "c = 32"
      by simp_all
    moreover from n have "\<not> next_word is_hspace a" by (cases a) (simp_all add: next_word_def)
    ultimately show ?thesis using True Cons.IH by simp
  next
    case False
    with Cons show ?thesis by simp
  qed
qed

lemma spaces_single_newline:
  "spaces_single a \<Longrightarrow> spaces_single b \<Longrightarrow> spaces_single (a @ 10 # b)"
proof (induction a)
  case Nil
  then show ?case by (simp add: not_hspace_newline)
next
  case (Cons c a)
  show ?case
  proof (cases "is_hspace c")
    case True
    with Cons.prems have n: "\<not> next_word is_hspace a" by simp
    then have "\<not> next_word is_hspace (a @ 10 # b)"
      by (cases a) (simp_all add: next_word_def not_hspace_newline)
    with True Cons show ?thesis by simp
  next
    case False
    with Cons show ?thesis by simp
  qed
qed

lemma spaces_single_no_tab_cr:
  "spaces_single t \<Longrightarrow> 13 \<notin> set t \<and> 9 \<notin> set t"
proof (induction t)
  case Nil
  then show ?case by simp
next
  case (Cons c cs)
  have "is_hspace 13" "is_hspace 9" by (simp_all add: is_hspace_def is_space_def)
  with Cons show ?case by (auto split: if_splits)
qed


subsection \<open>Lines\<close>

lemma split_lines_nonempty: "split_lines t \<noteq> []"
  by (induction t) (auto split: list.splits)

lemma join_cons_head: "ls \<noteq> [] \<Longrightarrow> join sep ((c # l) # tl ls) = c # join sep (l # tl ls)"
  by (cases "tl ls") simp_all

lemma join_split_lines: "join [10] (split_lines t) = t"
proof (induction t)
  case Nil
  then show ?case by simp
next
  case (Cons c cs)
  obtain l ls where s: "split_lines cs = l # ls"
    using split_lines_nonempty [of cs] by (cases "split_lines cs") auto
  show ?case
  proof (cases "c = 10")
    case True
    with s Cons.IH show ?thesis by simp
  next
    case False
    have "join [10] ((c # l) # ls) = c # join [10] (l # ls)" by (cases ls) simp_all
    with False s Cons.IH show ?thesis by simp
  qed
qed

lemma split_lines_no_newline: "l \<in> set (split_lines t) \<Longrightarrow> 10 \<notin> set l"
proof (induction t arbitrary: l)
  case Nil
  then show ?case by simp
next
  case (Cons c cs)
  obtain k ks where s: "split_lines cs = k # ks"
    using split_lines_nonempty [of cs] by (cases "split_lines cs") auto
  with Cons show ?case by (cases "c = 10") auto
qed

lemma split_lines_head:
  assumes "split_lines cs = l # ls" "cs \<noteq> []" "hd cs \<noteq> 10"
  shows "l \<noteq> []"
proof -
  from assms(2) obtain c cs' where "cs = c # cs'" by (cases cs) auto
  with assms show ?thesis by (auto split: list.splits)
qed

lemma set_strip: "set (strip l) \<subseteq> set l"
proof -
  obtain a b where "l = a @ strip l @ b" using strip_decomp by blast
  then have "set l = set a \<union> set (strip l) \<union> set b" by (metis set_append Un_assoc)
  then show ?thesis by blast
qed

lemma spaces_single_join:
  "\<forall>l\<in>set ls. spaces_single l \<Longrightarrow> spaces_single (join [10] ls)"
proof (induction "[10::nat]" ls rule: join.induct)
  case (3 p q ps)
  then have "spaces_single p" "spaces_single (join [10] (q # ps))" by simp_all
  then show ?case by (simp add: spaces_single_newline)
qed simp_all

lemma spaces_single_lines:
  "spaces_single (join [10] ls) \<Longrightarrow> l \<in> set ls \<Longrightarrow> spaces_single l"
proof (induction "[10::nat]" ls arbitrary: l rule: join.induct)
  case (3 p q ps)
  from 3(2) have "spaces_single (p @ [10] @ join [10] (q # ps))" by simp
  then have "spaces_single p" "spaces_single ([10] @ join [10] (q # ps))"
    using spaces_single_append by blast+
  then have "spaces_single p" "spaces_single (join [10] (q # ps))"
    by (simp_all add: not_hspace_newline)
  with 3 show ?case by auto
qed simp_all

lemma spaces_single_strip: "spaces_single l \<Longrightarrow> spaces_single (strip l)"
proof -
  assume a: "spaces_single l"
  obtain x y where "l = x @ strip l @ y" using strip_decomp by blast
  with a have "spaces_single (x @ strip l @ y)" by simp
  then have "spaces_single (strip l @ y)" using spaces_single_append by blast
  then show ?thesis using spaces_single_append by blast
qed

lemma spaces_single_strip_lines:
  assumes "spaces_single t"
  shows "spaces_single (join [10] (map strip (split_lines t)))"
proof (rule spaces_single_join, rule ballI)
  fix l assume "l \<in> set (map strip (split_lines t))"
  then obtain k where k: "k \<in> set (split_lines t)" "l = strip k" by auto
  from assms have "spaces_single (join [10] (split_lines t))" by (simp add: join_split_lines)
  then have "spaces_single k" using k(1) by (rule spaces_single_lines)
  with k(2) show "spaces_single l" by (simp add: spaces_single_strip)
qed

lemma lines_stripped_line:
  assumes "10 \<notin> set l" "l = [] \<or> \<not> is_space (last l)"
    and "b \<longrightarrow> l = [] \<or> \<not> is_space (hd l)"
    and "r = [] \<or> (hd r = 10 \<and> lines_stripped True (tl r))"
  shows "lines_stripped b (l @ r)"
  using assms
proof (induction l arbitrary: b)
  case Nil
  then show ?case by (cases r) auto
next
  case (Cons c l)
  from Cons.prems(1) have c: "c \<noteq> 10" and nl: "10 \<notin> set l" by auto
  show ?case
  proof (cases "is_hspace c")
    case True
    then have sp: "is_space c" by (rule hspace_space)
    with Cons.prems(2) have l: "l \<noteq> []" by auto
    with Cons.prems(2) have last: "l = [] \<or> \<not> is_space (last l)" by simp
    from sp Cons.prems(3) have b: "\<not> b" by simp
    from l nl have h: "hd (l @ r) \<noteq> 10" by (cases l) auto
    have "lines_stripped False (l @ r)"
      using nl last Cons.prems(4) by (intro Cons.IH) simp_all
    with True c b l h show ?thesis by simp
  next
    case False
    from Cons.prems(2) have last: "l = [] \<or> \<not> is_space (last l)" by (cases l) auto
    have "lines_stripped False (l @ r)"
      using nl last Cons.prems(4) by (intro Cons.IH) simp_all
    with False c show ?thesis by simp
  qed
qed

lemma lines_stripped_join:
  assumes "\<forall>l\<in>set ls. 10 \<notin> set l \<and> (l = [] \<or> (\<not> is_space (hd l) \<and> \<not> is_space (last l)))"
  shows "lines_stripped True (join [10] ls)"
  using assms
proof (induction "[10::nat]" ls rule: join.induct)
  case 1
  then show ?case by simp
next
  case (2 p)
  then have "lines_stripped True (p @ [])" by (intro lines_stripped_line) auto
  then show ?case by simp
next
  case (3 p q ps)
  then have "lines_stripped True (join [10] (q # ps))" by simp
  with 3(2) have "lines_stripped True (p @ (10 # join [10] (q # ps)))"
    by (intro lines_stripped_line) auto
  then show ?case by simp
qed

lemma lines_stripped_strip_lines:
  "lines_stripped True (join [10] (map strip (split_lines t)))"
proof (rule lines_stripped_join, rule ballI)
  fix l assume "l \<in> set (map strip (split_lines t))"
  then obtain k where k: "k \<in> set (split_lines t)" "l = strip k" by auto
  from k(1) have "10 \<notin> set k" by (rule split_lines_no_newline)
  with k(2) have "10 \<notin> set l" using set_strip [of k] by blast
  moreover have "l = [] \<or> (\<not> is_space (hd l) \<and> \<not> is_space (last l))"
    unfolding k(2) using strip_ends [of k] by blast
  ultimately show "10 \<notin> set l \<and> (l = [] \<or> (\<not> is_space (hd l) \<and> \<not> is_space (last l)))"
    by simp
qed

lemma not_space_iff: "c \<noteq> 10 \<Longrightarrow> is_space c \<longleftrightarrow> is_hspace c"
  by (simp add: is_hspace_def)

lemma lines_stripped_split:
  assumes "lines_stripped b t"
  shows "case split_lines t of
           [] \<Rightarrow> True
         | l # ls \<Rightarrow> (l = [] \<or> \<not> is_space (last l)) \<and> (b \<longrightarrow> l = [] \<or> \<not> is_space (hd l)) \<and>
                    (\<forall>k\<in>set ls. strip k = k)"
  using assms
proof (induction t arbitrary: b)
  case Nil
  then show ?case by simp
next
  case (Cons c cs)
  obtain l ls where s: "split_lines cs = l # ls"
    using split_lines_nonempty [of cs] by (cases "split_lines cs") auto
  show ?case
  proof (cases "c = 10")
    case True
    with Cons.prems have "lines_stripped True cs" by simp
    from Cons.IH [OF this] s
    have "(l = [] \<or> \<not> is_space (last l))" "l = [] \<or> \<not> is_space (hd l)" "\<forall>k\<in>set ls. strip k = k"
      by simp_all
    then have "strip l = l" "\<forall>k\<in>set ls. strip k = k" by (auto intro: strip_fixed)
    with True s show ?thesis by simp
  next
    case nl: False
    show ?thesis
    proof (cases "is_hspace c")
      case True
      with nl Cons.prems have p: "\<not> b" "cs \<noteq> []" "hd cs \<noteq> 10" "lines_stripped False cs"
        by simp_all
      from s p(2,3) have l: "l \<noteq> []" by (rule split_lines_head)
      from Cons.IH [OF p(4)] s have "l = [] \<or> \<not> is_space (last l)" "\<forall>k\<in>set ls. strip k = k"
        by simp_all
      with nl s l p(1) show ?thesis by simp
    next
      case False
      with nl have ns: "\<not> is_space c" by (simp add: not_space_iff)
      from False nl Cons.prems have "lines_stripped False cs" by simp
      from Cons.IH [OF this] s have "l = [] \<or> \<not> is_space (last l)" "\<forall>k\<in>set ls. strip k = k"
        by simp_all
      with nl s ns show ?thesis by auto
    qed
  qed
qed

lemma strip_lines_fixed:
  assumes "lines_stripped True t"
  shows "join [10] (map strip (split_lines t)) = t"
proof -
  obtain l ls where s: "split_lines t = l # ls"
    using split_lines_nonempty [of t] by (cases "split_lines t") auto
  from lines_stripped_split [OF assms] s
  have "l = [] \<or> \<not> is_space (last l)" "l = [] \<or> \<not> is_space (hd l)" "\<forall>k\<in>set ls. strip k = k"
    by simp_all
  then have "strip l = l" "\<forall>k\<in>set ls. strip k = k" by (auto intro: strip_fixed)
  then have "map strip (split_lines t) = split_lines t" by (simp add: s map_idI)
  then show ?thesis by (simp add: join_split_lines)
qed


subsection \<open>Runs of newlines\<close>

lemma collapse_newlines_Nil: "collapse_newlines t = [] \<longleftrightarrow> t = []"
  by (cases t) simp_all

lemma hd_collapse_newlines: "t \<noteq> [] \<Longrightarrow> hd (collapse_newlines t) = hd t"
  by (cases t) simp_all

lemma next_word_collapse_newlines:
  "next_word P (collapse_newlines t) = next_word P t"
  by (cases t) (simp_all add: next_word_def)

lemma spaces_single_dropWhile: "spaces_single t \<Longrightarrow> spaces_single (dropWhile P t)"
proof -
  assume "spaces_single t"
  then have "spaces_single (takeWhile P t @ dropWhile P t)" by simp
  then show ?thesis using spaces_single_append by blast
qed

lemma spaces_single_collapse_newlines:
  "spaces_single t \<Longrightarrow> spaces_single (collapse_newlines t)"
proof (induction t rule: collapse_newlines.induct)
  case 1
  then show ?case by simp
next
  case (2 c cs)
  show ?case
  proof (cases "c = 10 \<and> 2 \<le> length (takeWhile (\<lambda>x. x = 10) cs)")
    case True
    with 2(3) have "spaces_single cs" by (simp add: not_hspace_newline)
    then have "spaces_single (dropWhile (\<lambda>x. x = 10) cs)" by (rule spaces_single_dropWhile)
    with True 2(1) show ?thesis by (simp add: not_hspace_newline)
  next
    case False
    from 2(3) have "spaces_single cs" by (simp split: if_splits)
    with False 2(2) have "spaces_single (collapse_newlines cs)" by simp
    with False 2(3) show ?thesis
      by (auto simp add: next_word_collapse_newlines split: if_splits)
  qed
qed

lemma lines_stripped_drop_newlines:
  "lines_stripped True t \<Longrightarrow> lines_stripped True (dropWhile (\<lambda>x. x = 10) t)"
proof (induction t)
  case Nil
  then show ?case by simp
next
  case (Cons c cs)
  show ?case
  proof (cases "c = 10")
    case True
    with Cons.prems have "lines_stripped True cs" by simp
    then have "lines_stripped True (dropWhile (\<lambda>x. x = 10) cs)" by (rule Cons.IH)
    with True show ?thesis by simp
  next
    case False
    then have "dropWhile (\<lambda>x. x = 10) (c # cs) = c # cs" by simp
    with Cons.prems show ?thesis by (simp only:)
  qed
qed

lemma lines_stripped_collapse_newlines:
  "lines_stripped b t \<Longrightarrow> lines_stripped b (collapse_newlines t)"
proof (induction t arbitrary: b rule: collapse_newlines.induct)
  case 1
  then show ?case by simp
next
  case (2 c cs)
  show ?case
  proof (cases "c = 10 \<and> 2 \<le> length (takeWhile (\<lambda>x. x = 10) cs)")
    case True
    with 2(3) have "lines_stripped True cs" by simp
    then have "lines_stripped True (dropWhile (\<lambda>x. x = 10) cs)"
      by (rule lines_stripped_drop_newlines)
    with True 2(1) have "lines_stripped True (collapse_newlines (dropWhile (\<lambda>x. x = 10) cs))"
      by simp
    with True show ?thesis by simp
  next
    case False
    note IH = 2(2) [OF False]
    show ?thesis
    proof (cases "c = 10")
      case True
      with 2(3) have "lines_stripped True cs" by simp
      then have "lines_stripped True (collapse_newlines cs)" by (rule IH)
      with False True show ?thesis by simp
    next
      case nl: False
      show ?thesis
      proof (cases "is_hspace c")
        case True
        with nl 2(3) have p: "\<not> b" "cs \<noteq> []" "hd cs \<noteq> 10" "lines_stripped False cs"
          by simp_all
        from p(4) have "lines_stripped False (collapse_newlines cs)" by (rule IH)
        with False nl True p show ?thesis
          by (simp add: collapse_newlines_Nil hd_collapse_newlines)
      next
        case hs: False
        with nl 2(3) have "lines_stripped False cs" by simp
        then have "lines_stripped False (collapse_newlines cs)" by (rule IH)
        with False nl hs show ?thesis by simp
      qed
    qed
  qed
qed

lemma newlines_bounded_collapse:
  "length (takeWhile (\<lambda>x. x = 10) t) + k \<le> 2 \<or> k = 0 \<Longrightarrow>
   newlines_bounded k (collapse_newlines t)"
proof (induction t arbitrary: k rule: collapse_newlines.induct)
  case 1
  then show ?case by simp
next
  case (2 c cs)
  let ?r = "length (takeWhile (\<lambda>x. x = 10) cs)"
  show ?case
  proof (cases "c = 10 \<and> 2 \<le> ?r")
    case True
    with 2(3) have k: "k = 0" by simp
    have "length (takeWhile (\<lambda>x. x = 10) (dropWhile (\<lambda>x. x = 10) cs)) = 0"
      by (induction cs) simp_all
    then have "newlines_bounded 2 (collapse_newlines (dropWhile (\<lambda>x. x = 10) cs))"
      using True by (intro 2(1)) simp_all
    with True k show ?thesis by (simp add: numeral_2_eq_2)
  next
    case False
    note IH = 2(2) [OF False]
    show ?thesis
    proof (cases "c = 10")
      case True
      with False have r: "?r < 2" by simp
      show ?thesis
      proof (cases "k = 0")
        case True
        have "newlines_bounded 1 (collapse_newlines cs)" using r by (intro IH) simp
        with False \<open>c = 10\<close> True show ?thesis by simp
      next
        case nz: False
        with 2(3) \<open>c = 10\<close> have "Suc ?r + k \<le> 2" by simp
        with nz have k1: "k = 1" and r0: "?r = 0" by linarith+
        from r0 have "newlines_bounded 2 (collapse_newlines cs)" by (intro IH) simp
        with False \<open>c = 10\<close> k1 show ?thesis by (simp add: numeral_2_eq_2)
      qed
    next
      case nl: False
      have "newlines_bounded 0 (collapse_newlines cs)" by (intro IH) simp
      with False nl show ?thesis by simp
    qed
  qed
qed

lemma newlines_bounded_run:
  "newlines_bounded k t \<Longrightarrow>
   length (takeWhile (\<lambda>x. x = 10) t) = 0 \<or> length (takeWhile (\<lambda>x. x = 10) t) + k \<le> 2"
proof (induction t arbitrary: k)
  case Nil
  then show ?case by simp
next
  case (Cons c cs)
  show ?case
  proof (cases "c = 10")
    case True
    with Cons.prems have k: "k < 2" and n: "newlines_bounded (Suc k) cs" by simp_all
    from Cons.IH [OF n] k True show ?thesis by auto
  next
    case False
    then show ?thesis by simp
  qed
qed

lemma collapse_newlines_fixed: "newlines_bounded k t \<Longrightarrow> collapse_newlines t = t"
proof (induction t arbitrary: k)
  case Nil
  then show ?case by simp
next
  case (Cons c cs)
  show ?case
  proof (cases "c = 10")
    case True
    with Cons.prems have n: "newlines_bounded (Suc k) cs" by simp
    from newlines_bounded_run [OF n] have "length (takeWhile (\<lambda>x. x = 10) cs) < 2" by auto
    with True Cons.IH [OF n] show ?thesis by simp
  next
    case False
    with Cons.prems have "newlines_bounded 0 cs" by simp
    with False Cons.IH show ?thesis by simp
  qed
qed

subsection \<open>The shapes survive the final strip\<close>

lemma lines_stripped_suffix:
  "lines_stripped b (a @ s) \<Longrightarrow> s = [] \<or> \<not> is_space (hd s) \<Longrightarrow> lines_stripped b' s"
proof (induction a arbitrary: b)
  case Nil
  show ?case
  proof (cases s)
    case Nil
    then show ?thesis by simp
  next
    case (Cons c cs)
    with Nil.prems(2) have "\<not> is_space c" by simp
    then have "c \<noteq> 10" "\<not> is_hspace c" using newline_space hspace_space by auto
    with Nil.prems(1) Cons show ?thesis by simp
  qed
next
  case (Cons c a)
  from Cons.prems(1) have "\<exists>b''. lines_stripped b'' (a @ s)"
    by (auto split: if_splits)
  with Cons.IH Cons.prems(2) show ?case by blast
qed

lemma lines_stripped_prefix:
  "lines_stripped b (m @ z) \<Longrightarrow> m = [] \<or> \<not> is_space (last m) \<Longrightarrow> lines_stripped b m"
proof (induction m arbitrary: b)
  case Nil
  then show ?case by simp
next
  case (Cons c m)
  show ?case
  proof (cases "m = []")
    case True
    with Cons.prems(2) have "\<not> is_space c" by simp
    then have "c \<noteq> 10" "\<not> is_hspace c" using newline_space hspace_space by auto
    with True show ?thesis by simp
  next
    case False
    with Cons.prems(2) have l: "m = [] \<or> \<not> is_space (last m)" by simp
    from False have h: "hd (m @ z) = hd m" by simp
    show ?thesis
    proof (cases "c = 10")
      case True
      with Cons.prems(1) have "lines_stripped True (m @ z)" by simp
      then have "lines_stripped True m" using l by (rule Cons.IH)
      with True show ?thesis by simp
    next
      case nl: False
      show ?thesis
      proof (cases "is_hspace c")
        case True
        with nl Cons.prems(1) have p: "\<not> b" "hd (m @ z) \<noteq> 10" "lines_stripped False (m @ z)"
          by simp_all
        from p(3) have "lines_stripped False m" using l by (rule Cons.IH)
        with True nl p(1,2) False h show ?thesis by simp
      next
        case hs: False
        with nl Cons.prems(1) have "lines_stripped False (m @ z)" by simp
        then have "lines_stripped False m" using l by (rule Cons.IH)
        with hs nl show ?thesis by simp
      qed
    qed
  qed
qed

lemma lines_stripped_strip:
  assumes "lines_stripped True t"
  shows "lines_stripped True (strip t)"
proof (cases "strip t = []")
  case True
  then show ?thesis by simp
next
  case False
  obtain a z where d: "t = a @ strip t @ z" using strip_decomp by blast
  with assms have "lines_stripped True (a @ strip t @ z)" by simp
  moreover from False strip_left [of t] have "strip t @ z = [] \<or> \<not> is_space (hd (strip t @ z))"
    by simp
  ultimately have "lines_stripped True (strip t @ z)" by (rule lines_stripped_suffix)
  then show ?thesis using strip_right [of t] by (rule lines_stripped_prefix)
qed

lemma newlines_bounded_less: "newlines_bounded k t \<Longrightarrow> j \<le> k \<Longrightarrow> newlines_bounded j t"
  by (induction t arbitrary: k j) auto

lemma newlines_bounded_suffix: "newlines_bounded k (a @ s) \<Longrightarrow> newlines_bounded 0 s"
proof (induction a arbitrary: k)
  case Nil
  then show ?case by (simp add: newlines_bounded_less)
next
  case (Cons c a)
  from Cons.prems have "\<exists>j. newlines_bounded j (a @ s)" by (auto split: if_splits)
  with Cons.IH show ?case by blast
qed

lemma newlines_bounded_prefix: "newlines_bounded k (m @ z) \<Longrightarrow> newlines_bounded k m"
  by (induction m arbitrary: k) (auto split: if_splits)

lemma newlines_bounded_strip:
  assumes "newlines_bounded 0 t"
  shows "newlines_bounded 0 (strip t)"
proof -
  obtain a z where "t = a @ strip t @ z" using strip_decomp by blast
  with assms have "newlines_bounded 0 (a @ strip t @ z)" by simp
  then have "newlines_bounded 0 (strip t @ z)" by (rule newlines_bounded_suffix)
  then show ?thesis by (rule newlines_bounded_prefix)
qed

text \<open>
  Claim C8. \<^verbatim>\<open>normalize_whitespace\<close> changes nothing in a text that it has produced.
\<close>

theorem normalize_whitespace_idempotent:
  "normalize_whitespace (normalize_whitespace t) = normalize_whitespace t"
proof -
  define u where "u = collapse_spaces (replace_all [9] [32]
      (replace_all [13] [10] (replace_all [13, 10] [10] t)))"
  define v where "v = join [10] (map strip (split_lines u))"
  define w where "w = collapse_newlines v"
  define y where "y = strip w"
  have y: "normalize_whitespace t = y"
    by (simp add: normalize_whitespace_def u_def v_def w_def y_def)
  have "spaces_single u" unfolding u_def by (rule spaces_single_collapse)
  then have "spaces_single v" unfolding v_def by (rule spaces_single_strip_lines)
  then have "spaces_single w" unfolding w_def by (rule spaces_single_collapse_newlines)
  then have s: "spaces_single y" unfolding y_def by (rule spaces_single_strip)
  have "lines_stripped True v" unfolding v_def by (rule lines_stripped_strip_lines)
  then have "lines_stripped True w" unfolding w_def by (rule lines_stripped_collapse_newlines)
  then have l: "lines_stripped True y" unfolding y_def by (rule lines_stripped_strip)
  have "newlines_bounded 0 w" unfolding w_def by (rule newlines_bounded_collapse) simp
  then have n: "newlines_bounded 0 y" unfolding y_def by (rule newlines_bounded_strip)
  from s have "13 \<notin> set y" "9 \<notin> set y" using spaces_single_no_tab_cr by blast+
  then have r: "replace_all [13, 10] [10] y = y" "replace_all [13] [10] y = y"
    "replace_all [9] [32] y = y"
    by (simp_all add: replace_all_absent)
  have "normalize_whitespace y = y"
    unfolding normalize_whitespace_def Let_def r
    unfolding collapse_spaces_fixed [OF s] strip_lines_fixed [OF l] collapse_newlines_fixed [OF n]
    unfolding y_def by (rule strip_idem)
  then show ?thesis by (simp only: y)
qed


section \<open>Years read as two pairs\<close>



subsection \<open>The number pattern at a token\<close>







lemma sub_numbers_other:
  "\<not> is_digit dec c \<Longrightarrow>
   sub_numbers dec word p (c # cs) =
     (case sub_numbers dec word (is_word dec word c) cs of
        Inl e \<Rightarrow> Inl e
      | Inr out \<Rightarrow> Inr (c # out))"
  by simp





subsection \<open>The ordinal patterns leave a year alone\<close>







declare sub_literal.simps(2) [simp del]












subsection \<open>The date patterns\<close>









lemma sub_us_no_boundary:
  "p = is_word dec word c \<Longrightarrow>
   sub_us_dates dec word p (c # cs) =
     (case sub_us_dates dec word (is_word dec word c) cs of
        Inl e \<Rightarrow> Inl e
      | Inr out \<Rightarrow> Inr (c # out))"
  by simp

lemma sub_iso_no_boundary:
  "p = is_word dec word c \<Longrightarrow>
   sub_iso_dates dec word p (c # cs) =
     (case sub_iso_dates dec word (is_word dec word c) cs of
        Inl e \<Rightarrow> Inl e
      | Inr out \<Rightarrow> Inr (c # out))"
  by simp

declare sub_us_dates.simps(2) [simp del] sub_iso_dates.simps(2) [simp del]









subsection \<open>The words of a date hold no digit\<close>














subsection \<open>An ISO date\<close>






subsection \<open>The claim\<close>





end
